theory Spec2Isabelle
  imports Main "HOL-Library.Word"
begin
section \<open>Universe constraint environment (kernel/environment.cpp)\<close>

text \<open>
  The C++ types \<open>unsigned\<close> and \<open>int\<close> are 32-bit words; an \<open>int\<close> is read through
  \<open>sint\<close>, an \<open>unsigned\<close> through \<open>uint\<close>/\<open>unat\<close>. The helpers \<open>sub\<close> and \<open>add\<close> of the source
  compute in 64 bits (\<open>long long\<close>), which holds every sum and difference of two 32-bit
  values exactly, so their intermediate result is an unbounded \<open>int\<close> here.
  Dense variable indices (\<open>uvar\<close>) index the vectors and are natural numbers.
\<close>

type_synonym name = string
type_synonym u32 = "32 word"
type_synonym i32 = "32 word"
type_synonym uvar = nat

text \<open>The three level kinds the switches of the source range over.\<close>

datatype level = UVar name uvar | Lift level u32 | Max "level list"

text \<open>
  Every way a call can end other than by returning: the two exceptions of the source,
  a failed \<open>lean_assert\<close>, and a vector read or write outside the vector (undefined in C++,
  a distinct outcome here so that no theorem rests on it).
\<close>

datatype error = UniverseOverflow | AlreadyDeclared | AssertionViolation | OutOfRange

definition uninit :: u32 where
  "uninit = 2147483647"

text \<open>\<open>static int sub(int v, unsigned k)\<close>\<close>

definition sub :: "i32 \<Rightarrow> u32 \<Rightarrow> error + i32" where
  "sub v k =
     (let r = sint v - uint k
      in if r < - 2147483648 then Inl UniverseOverflow else Inr (word_of_int r))"

text \<open>\<open>static int add(int v, unsigned k)\<close>\<close>

definition add_int :: "i32 \<Rightarrow> u32 \<Rightarrow> error + i32" where
  "add_int v k =
     (let r = sint v + uint k
      in if r > 2147483647 - 1 then Inl UniverseOverflow else Inr (word_of_int r))"

text \<open>\<open>static unsigned add(unsigned v, unsigned k)\<close>\<close>

definition add_unsigned :: "u32 \<Rightarrow> u32 \<Rightarrow> error + u32" where
  "add_unsigned v k =
     (let r = uint v + uint k
      in if r > 2147483647 - 1 then Inl UniverseOverflow else Inr (word_of_int r))"

text \<open>The read \<open>m[i][j]\<close> of a vector of vectors, and the write \<open>m[i][j] = v\<close>.\<close>

definition at2 :: "u32 list list \<Rightarrow> nat \<Rightarrow> nat \<Rightarrow> u32 option" where
  "at2 m i j = (if i < length m \<and> j < length (m ! i) then Some (m ! i ! j) else None)"

definition set2 :: "u32 list list \<Rightarrow> nat \<Rightarrow> nat \<Rightarrow> u32 \<Rightarrow> u32 list list" where
  "set2 m i j v = m[i := (m ! i)[j := v]]"

text \<open>
  \<open>bool is_ge(level const & l1, level const & l2, int k)\<close>: the outer switch is on \<open>l2\<close>, the
  inner one on \<open>l1\<close>. \<open>std::any_of\<close> and \<open>std::all_of\<close> stop at the first element that
  decides them; an exception thrown before that point leaves the call.
\<close>

fun is_ge :: "u32 list list \<Rightarrow> level \<Rightarrow> level \<Rightarrow> i32 \<Rightarrow> error + bool"
  and is_ge_any :: "u32 list list \<Rightarrow> level list \<Rightarrow> level \<Rightarrow> i32 \<Rightarrow> error + bool"
  and is_ge_all :: "u32 list list \<Rightarrow> level \<Rightarrow> level list \<Rightarrow> i32 \<Rightarrow> error + bool"
where
  "is_ge m (UVar n1 i1) (UVar n2 i2) k =
     (case at2 m i1 i2 of
        None \<Rightarrow> Inl OutOfRange
      | Some d \<Rightarrow> Inr (d \<noteq> uninit \<and> (sint k < 0 \<or> (sint k \<ge> 0 \<and> d \<ge> k))))"
| "is_ge m (Lift l1 off) (UVar n2 i2) k =
     (case sub k off of
        Inl e \<Rightarrow> Inl e
      | Inr k' \<Rightarrow> is_ge m l1 (UVar n2 i2) k')"
| "is_ge m (Max ls) (UVar n2 i2) k = is_ge_any m ls (UVar n2 i2) k"
| "is_ge m l1 (Lift l2 off) k =
     (case add_int k off of
        Inl e \<Rightarrow> Inl e
      | Inr k' \<Rightarrow> is_ge m l1 l2 k')"
| "is_ge m l1 (Max ls) k = is_ge_all m l1 ls k"
| "is_ge_any m [] l2 k = Inr False"
| "is_ge_any m (l # ls) l2 k =
     (case is_ge m l l2 k of
        Inl e \<Rightarrow> Inl e
      | Inr b \<Rightarrow> if b then Inr True else is_ge_any m ls l2 k)"
| "is_ge_all m l1 [] k = Inr True"
| "is_ge_all m l1 (l # ls) k =
     (case is_ge m l1 l k of
        Inl e \<Rightarrow> Inl e
      | Inr b \<Rightarrow> if b then is_ge_all m l1 ls k else Inr False)"

text \<open>
  The loop \<open>for (uvar v3 = 0; v3 < num; v3++)\<close> of \<open>add_constraint\<close>, over the indices still
  to visit. An exception leaves the matrix as the iterations before it wrote it.
\<close>

fun add_constraint_loop ::
  "uvar \<Rightarrow> uvar \<Rightarrow> u32 \<Rightarrow> uvar list \<Rightarrow> u32 list list \<Rightarrow> u32 list list \<times> (error + unit)"
where
  "add_constraint_loop v1 v2 d [] m = (m, Inr ())"
| "add_constraint_loop v1 v2 d (v3 # vs) m =
     (case at2 m v2 v3 of
        None \<Rightarrow> (m, Inl OutOfRange)
      | Some d23 \<Rightarrow>
          if d23 \<noteq> uninit then
            if v1 = v3 then (m, Inl AssertionViolation)
            else
              (case add_unsigned d d23 of
                 Inl e \<Rightarrow> (m, Inl e)
               | Inr d_v1_v3 \<Rightarrow>
                   (case at2 m v1 v3 of
                      None \<Rightarrow> (m, Inl OutOfRange)
                    | Some old \<Rightarrow>
                        if old = uninit \<or> d_v1_v3 \<ge> old
                        then add_constraint_loop v1 v2 d vs (set2 m v1 v3 d_v1_v3)
                        else add_constraint_loop v1 v2 d vs m))
          else add_constraint_loop v1 v2 d vs m)"

text \<open>\<open>void add_constraint(uvar v1, uvar v2, unsigned d)\<close>\<close>

definition add_constraint ::
  "uvar \<Rightarrow> uvar \<Rightarrow> u32 \<Rightarrow> u32 list list \<Rightarrow> u32 list list \<times> (error + unit)"
where
  "add_constraint v1 v2 d m =
     (if v1 = v2 then (m, Inl AssertionViolation)
      else
        let num = length m in
        if \<not> v1 < num then (m, Inl AssertionViolation)
        else if \<not> v2 < num then (m, Inl AssertionViolation)
        else
          (case at2 m v1 v2 of
             None \<Rightarrow> (m, Inl OutOfRange)
           | Some old \<Rightarrow>
               if old = uninit \<or> d \<ge> old
               then add_constraint_loop v1 v2 d [0..<num] (set2 m v1 v2 d)
               else (m, Inr ())))"

text \<open>
  \<open>void add_constraints(uvar v1, level const & l, unsigned k)\<close>; \<open>std::for_each\<close> over the
  members of a max stops at the first member that throws.
\<close>

fun add_constraints ::
  "uvar \<Rightarrow> level \<Rightarrow> u32 \<Rightarrow> u32 list list \<Rightarrow> u32 list list \<times> (error + unit)"
  and add_constraints_each ::
  "uvar \<Rightarrow> level list \<Rightarrow> u32 \<Rightarrow> u32 list list \<Rightarrow> u32 list list \<times> (error + unit)"
where
  "add_constraints v1 (UVar n i) k m = add_constraint v1 i k m"
| "add_constraints v1 (Lift l off) k m =
     (case add_unsigned k off of
        Inl e \<Rightarrow> (m, Inl e)
      | Inr k' \<Rightarrow> add_constraints v1 l k' m)"
| "add_constraints v1 (Max ls) k m = add_constraints_each v1 ls k m"
| "add_constraints_each v1 [] k m = (m, Inr ())"
| "add_constraints_each v1 (l # ls) k m =
     (case add_constraints v1 l k m of
        (m', Inl e) \<Rightarrow> (m', Inl e)
      | (m', Inr u) \<Rightarrow> add_constraints_each v1 ls k m')"

text \<open>The state of \<open>environment::imp\<close>.\<close>

record environment =
  m_uvar_distances :: "u32 list list"
  m_uvars :: "level list"

text \<open>
  \<open>uvar_name\<close> and \<open>uvar_idx\<close> are accessors of the level module; they are applied to
  universe variables only (\<open>m_uvars\<close> holds nothing else).
\<close>

fun uvar_name :: "level \<Rightarrow> name option" where
  "uvar_name (UVar n i) = Some n"
| "uvar_name l = None"

text \<open>\<open>level add_var(name const & n)\<close>\<close>

definition add_var :: "name \<Rightarrow> environment \<Rightarrow> environment \<times> (error + level)" where
  "add_var n env =
     (if list_ex (\<lambda>l. uvar_name l = Some n) (m_uvars env) then (env, Inl AlreadyDeclared)
      else
        let idx = length (m_uvars env);
            r = UVar n idx;
            uvars = m_uvars env @ [r];
            dists = map (\<lambda>v. v @ [uninit]) (m_uvar_distances env);
            d = (replicate (length uvars) uninit)[idx := 0]
        in (\<lparr>m_uvar_distances = dists @ [d], m_uvars = uvars\<rparr>, Inr r))"

text \<open>\<open>level define_uvar(name const & n, level const & l)\<close>\<close>

definition define_uvar :: "name \<Rightarrow> level \<Rightarrow> environment \<Rightarrow> environment \<times> (error + level)" where
  "define_uvar n l env =
     (case add_var n env of
        (env1, Inl e) \<Rightarrow> (env1, Inl e)
      | (env1, Inr r) \<Rightarrow>
          (case r of
             UVar rn idx \<Rightarrow>
               (case add_constraints idx l 0 (m_uvar_distances env1) of
                  (m', Inl e) \<Rightarrow> (env1\<lparr>m_uvar_distances := m'\<rparr>, Inl e)
                | (m', Inr u) \<Rightarrow> (env1\<lparr>m_uvar_distances := m'\<rparr>, Inr r))
           | _ \<Rightarrow> (env1, Inl AssertionViolation)))"

text \<open>
  \<open>void init_uvars()\<close>, run by the constructor on the empty state. The default level
  \<open>level()\<close> is declared outside these sources; the assertion of \<open>init_uvars\<close> fixes its
  index to 0, and its name is the parameter \<open>base\<close>.
\<close>

definition init_uvars :: "name \<Rightarrow> environment" where
  "init_uvars base = \<lparr>m_uvar_distances = [[0]], m_uvars = [UVar base 0]\<rparr>"








text \<open>
  The environments reached through the public interface without an exception: the
  constructor's, and those reached from it by calls of \<open>define_uvar\<close> that return normally.
\<close>

inductive reachable :: "name \<Rightarrow> environment \<Rightarrow> bool" for base :: name where
  init: "reachable base (init_uvars base)"
| step: "reachable base env \<Longrightarrow> define_uvar n l env = (env', Inr r) \<Longrightarrow> reachable base env'"


section \<open>Substitution engine (kernel/instantiate.cpp, second part of library/compiler/lambda_lifting.h)\<close>

subsection \<open>The expression collaborator\<close>

text \<open>
  Modelled from the spec: the expression tree is declared outside these sources. It has
  the shapes the specification lists: a bound-variable reference with its de Bruijn index
  (an unbounded \<open>nat\<close>, as \<open>bvar_idx\<close> returns one), an application, a lambda with its body,
  a constant with its universe levels, and a sort.
\<close>

datatype expr = BVar nat | App expr expr | Lambda expr | Const name "level list" | Sort level

text \<open>
  Modelled from the spec: the loose-bvar range of a term is the greatest index of a loose
  bound variable plus one, counted from outside the term, and 0 for a closed term.
\<close>

fun get_loose_bvar_range :: "expr \<Rightarrow> nat" where
  "get_loose_bvar_range (BVar i) = Suc i"
| "get_loose_bvar_range (App f a) = max (get_loose_bvar_range f) (get_loose_bvar_range a)"
| "get_loose_bvar_range (Lambda b) = get_loose_bvar_range b - 1"
| "get_loose_bvar_range (Const c ls) = 0"
| "get_loose_bvar_range (Sort l) = 0"

definition has_loose_bvars :: "expr \<Rightarrow> bool" where
  "has_loose_bvars e = (0 < get_loose_bvar_range e)"

text \<open>
  Modelled from the spec: \<open>lift_loose_bvars(e, d)\<close> adds \<open>d\<close> to every loose bound variable
  of \<open>e\<close>; under \<open>s\<close> binders the loose variables are those with index at least \<open>s\<close>.
\<close>

fun lift_loose_bvars_from :: "expr \<Rightarrow> nat \<Rightarrow> nat \<Rightarrow> expr" where
  "lift_loose_bvars_from (BVar i) s d = (if s \<le> i then BVar (i + d) else BVar i)"
| "lift_loose_bvars_from (App f a) s d =
     App (lift_loose_bvars_from f s d) (lift_loose_bvars_from a s d)"
| "lift_loose_bvars_from (Lambda b) s d = Lambda (lift_loose_bvars_from b (Suc s) d)"
| "lift_loose_bvars_from (Const c ls) s d = Const c ls"
| "lift_loose_bvars_from (Sort l) s d = Sort l"

definition lift_loose_bvars :: "expr \<Rightarrow> nat \<Rightarrow> expr" where
  "lift_loose_bvars e d = lift_loose_bvars_from e 0 d"

text \<open>Addition of two \<open>unsigned\<close> values, which wraps around at \<open>2^32\<close>.\<close>

definition unsigned_add :: "nat \<Rightarrow> nat \<Rightarrow> nat" where
  "unsigned_add a b = (a + b) mod 4294967296"

text \<open>Subtraction of two \<open>unsigned\<close> values (both below \<open>2^32\<close>), which wraps around as well.\<close>

definition unsigned_sub :: "nat \<Rightarrow> nat \<Rightarrow> nat" where
  "unsigned_sub a b = (a + 4294967296 - b) mod 4294967296"

text \<open>
  Modelled from the spec: \<open>replace(e, F)\<close> rewrites the tree from the root. At each node it
  asks \<open>F\<close> with the number of binders crossed so far (an \<open>unsigned\<close>, as the callbacks of
  \<open>instantiate\<close> declare it); an answer replaces the node, no answer sends the traversal
  into the children, the body of a lambda with the offset increased by one.
  A callback of the model can also end in an error, which ends the traversal.
\<close>

fun replace_fn :: "(expr \<Rightarrow> nat \<Rightarrow> error + expr option) \<Rightarrow> expr \<Rightarrow> nat \<Rightarrow> error + expr" where
  "replace_fn F (App f a) offset =
     (case F (App f a) offset of
        Inl err \<Rightarrow> Inl err
      | Inr (Some r) \<Rightarrow> Inr r
      | Inr None \<Rightarrow>
          (case replace_fn F f offset of
             Inl err \<Rightarrow> Inl err
           | Inr new_f \<Rightarrow>
               (case replace_fn F a offset of
                  Inl err \<Rightarrow> Inl err
                | Inr new_a \<Rightarrow> Inr (App new_f new_a))))"
| "replace_fn F (Lambda b) offset =
     (case F (Lambda b) offset of
        Inl err \<Rightarrow> Inl err
      | Inr (Some r) \<Rightarrow> Inr r
      | Inr None \<Rightarrow>
          (case replace_fn F b (unsigned_add offset 1) of
             Inl err \<Rightarrow> Inl err
           | Inr new_b \<Rightarrow> Inr (Lambda new_b)))"
| "replace_fn F e offset =
     (case F e offset of
        Inl err \<Rightarrow> Inl err
      | Inr (Some r) \<Rightarrow> Inr r
      | Inr None \<Rightarrow> Inr e)"

text \<open>
  The read \<open>subst[i]\<close> of an array given by a pointer: outside the array it is undefined in
  C++, and the error \<open>OutOfRange\<close> here.
\<close>

definition array_read :: "expr list \<Rightarrow> nat \<Rightarrow> error + expr" where
  "array_read subst i = (if i < length subst then Inr (subst ! i) else Inl OutOfRange)"

text \<open>
  Modelled from the spec: \<open>nat::get_small_value\<close> turns an index that fits an \<open>unsigned\<close>
  into one; applied to a larger number it violates its precondition.
\<close>

definition get_small_value :: "nat \<Rightarrow> error + nat" where
  "get_small_value v = (if v < 4294967296 then Inr v else Inl AssertionViolation)"

subsection \<open>\<open>instantiate\<close> and \<open>instantiate_rev\<close>\<close>

text \<open>
  \<open>instantiate_easy_fn<rev>(n, subst)(a, app)\<close>, with \<open>reversed\<close> for the template parameter
  \<open>rev\<close>: the checks in the order of the source. The result \<open>Inr None\<close> is \<open>none_expr()\<close>.
\<close>

fun instantiate_easy_fn :: "bool \<Rightarrow> nat \<Rightarrow> expr list \<Rightarrow> expr \<Rightarrow> bool \<Rightarrow> error + expr option" where
  "instantiate_easy_fn reversed n subst (BVar i) app =
     (if \<not> has_loose_bvars (BVar i) then Inr (Some (BVar i))
      else if i < n then
        (case array_read subst (if reversed then unsigned_sub (unsigned_sub n i) 1 else i) of
           Inl err \<Rightarrow> Inl err
         | Inr r \<Rightarrow> Inr (Some r))
      else Inr None)"
| "instantiate_easy_fn reversed n subst (App f a) app =
     (if \<not> has_loose_bvars (App f a) then Inr (Some (App f a))
      else if app then
        (case instantiate_easy_fn reversed n subst a False of
           Inl err \<Rightarrow> Inl err
         | Inr None \<Rightarrow> Inr None
         | Inr (Some new_a) \<Rightarrow>
             (case instantiate_easy_fn reversed n subst f True of
                Inl err \<Rightarrow> Inl err
              | Inr None \<Rightarrow> Inr None
              | Inr (Some new_f) \<Rightarrow> Inr (Some (App new_f new_a))))
      else Inr None)"
| "instantiate_easy_fn reversed n subst e app =
     (if \<not> has_loose_bvars e then Inr (Some e) else Inr None)"

text \<open>The callback of the generic path of \<open>instantiate(a, s, n, subst)\<close>.\<close>

definition instantiate_fn :: "nat \<Rightarrow> nat \<Rightarrow> expr list \<Rightarrow> expr \<Rightarrow> nat \<Rightarrow> error + expr option" where
  "instantiate_fn s n subst m offset =
     (let s1 = unsigned_add s offset in
      if s1 < s then Inr (Some m)
      else if s1 \<ge> get_loose_bvar_range m then Inr (Some m)
      else
        (case m of
           BVar vidx \<Rightarrow>
             if vidx \<ge> s1 then
               (let h = unsigned_add s1 n in
                if h < s1 \<or> vidx < h then
                  (case get_small_value vidx of
                     Inl err \<Rightarrow> Inl err
                   | Inr v \<Rightarrow>
                       (case array_read subst (unsigned_sub v s1) of
                          Inl err \<Rightarrow> Inl err
                        | Inr r \<Rightarrow> Inr (Some (lift_loose_bvars r offset))))
                else Inr (Some (BVar (vidx - n))))
             else Inr None
         | _ \<Rightarrow> Inr None))"

text \<open>\<open>expr instantiate(expr const & a, unsigned s, unsigned n, expr const * subst)\<close>\<close>

definition instantiate :: "expr \<Rightarrow> nat \<Rightarrow> nat \<Rightarrow> expr list \<Rightarrow> error + expr" where
  "instantiate a s n subst =
     (if s \<ge> get_loose_bvar_range a \<or> n = 0 then Inr a
      else
        (case (if s = 0 then instantiate_easy_fn False n subst a True else Inr None) of
           Inl err \<Rightarrow> Inl err
         | Inr (Some r) \<Rightarrow> Inr r
         | Inr None \<Rightarrow> replace_fn (instantiate_fn s n subst) a 0))"

text \<open>
  The callback of the generic path of \<open>instantiate_rev(a, n, subst)\<close>. Its index
  \<open>n - (vidx - offset) - 1\<close> is computed on \<open>unsigned\<close> values.
\<close>

definition instantiate_rev_fn :: "nat \<Rightarrow> expr list \<Rightarrow> expr \<Rightarrow> nat \<Rightarrow> error + expr option" where
  "instantiate_rev_fn n subst m offset =
     (if offset \<ge> get_loose_bvar_range m then Inr (Some m)
      else
        (case m of
           BVar vidx \<Rightarrow>
             if vidx \<ge> offset then
               (let h = unsigned_add offset n in
                if h < offset \<or> vidx < h then
                  (case get_small_value vidx of
                     Inl err \<Rightarrow> Inl err
                   | Inr v \<Rightarrow>
                       (case array_read subst
                               (unsigned_sub (unsigned_sub n (unsigned_sub v offset)) 1) of
                          Inl err \<Rightarrow> Inl err
                        | Inr r \<Rightarrow> Inr (Some (lift_loose_bvars r offset))))
                else Inr (Some (BVar (vidx - n))))
             else Inr None
         | _ \<Rightarrow> Inr None))"

text \<open>\<open>expr instantiate_rev(expr const & a, unsigned n, expr const * subst)\<close>\<close>

definition instantiate_rev :: "expr \<Rightarrow> nat \<Rightarrow> expr list \<Rightarrow> error + expr" where
  "instantiate_rev a n subst =
     (if \<not> has_loose_bvars a then Inr a
      else
        (case instantiate_easy_fn True n subst a True of
           Inl err \<Rightarrow> Inl err
         | Inr (Some r) \<Rightarrow> Inr r
         | Inr None \<Rightarrow> replace_fn (instantiate_rev_fn n subst) a 0))"

subsection \<open>Beta reduction\<close>

text \<open>
  Modelled from the spec: the accessors of applications. \<open>get_app_fn\<close> is the head of an
  application spine; \<open>get_app_rev_args\<close> returns the head and the arguments of the spine,
  the last argument first; \<open>mk_rev_app(f, n, args)\<close> applies \<open>f\<close> to \<open>args[n-1]\<close>, ...,
  \<open>args[0]\<close> in this order.
\<close>

fun is_lambda :: "expr \<Rightarrow> bool" where
  "is_lambda (Lambda b) = True"
| "is_lambda e = False"

fun is_app :: "expr \<Rightarrow> bool" where
  "is_app (App f a) = True"
| "is_app e = False"

fun get_app_fn :: "expr \<Rightarrow> expr" where
  "get_app_fn (App f a) = get_app_fn f"
| "get_app_fn e = e"

fun get_app_rev_args :: "expr \<Rightarrow> expr \<times> expr list" where
  "get_app_rev_args (App f a) = (case get_app_rev_args f of (h, args) \<Rightarrow> (h, a # args))"
| "get_app_rev_args e = (e, [])"

fun mk_rev_app :: "expr \<Rightarrow> nat \<Rightarrow> expr list \<Rightarrow> error + expr" where
  "mk_rev_app f 0 args = Inr f"
| "mk_rev_app f (Suc i) args =
     (case array_read args i of
        Inl err \<Rightarrow> Inl err
      | Inr a \<Rightarrow> mk_rev_app (App f a) i args)"

text \<open>\<open>bool is_head_beta(expr const & t)\<close>\<close>

definition is_head_beta :: "expr \<Rightarrow> bool" where
  "is_head_beta t = (is_app t \<and> is_lambda (get_app_fn t))"

text \<open>
  The loop \<open>while (is_lambda(binding_body(f)) && m < num_args)\<close> of \<open>apply_beta\<close>; it is
  entered with \<open>f\<close> a lambda and returns the last \<open>f\<close> and \<open>m\<close>.
\<close>

fun apply_beta_loop :: "expr \<Rightarrow> nat \<Rightarrow> nat \<Rightarrow> expr \<times> nat" where
  "apply_beta_loop (Lambda b) m num_args =
     (if is_lambda b \<and> m < num_args then apply_beta_loop b (Suc m) num_args else (Lambda b, m))"
| "apply_beta_loop f m num_args = (f, m)"

text \<open>
  \<open>expr apply_beta(expr f, unsigned num_args, expr const * args)\<close>; \<open>args + (num_args - m)\<close>
  is the array without its first \<open>num_args - m\<close> elements, and \<open>instantiate(e, n, s)\<close> is
  \<open>instantiate(e, 0, n, s)\<close>.
\<close>

definition apply_beta :: "expr \<Rightarrow> nat \<Rightarrow> expr list \<Rightarrow> error + expr" where
  "apply_beta f num_args args =
     (if num_args = 0 then Inr f
      else if \<not> is_lambda f then mk_rev_app f num_args args
      else
        (case apply_beta_loop f 1 num_args of
           (Lambda b, m) \<Rightarrow>
             (case instantiate b 0 m (drop (num_args - m) args) of
                Inl err \<Rightarrow> Inl err
              | Inr r \<Rightarrow> mk_rev_app r (num_args - m) args)
         | (_, m) \<Rightarrow> Inl AssertionViolation))"

text \<open>
  \<open>expr head_beta_reduce(expr const & t)\<close>: the recursion has no bound, so a call that
  never returns is the value \<open>None\<close>.
\<close>

partial_function (option) head_beta_reduce :: "expr \<Rightarrow> (error + expr) option" where
  "head_beta_reduce t =
     (if \<not> is_head_beta t then Some (Inr t)
      else
        (case get_app_rev_args t of
           (f, args) \<Rightarrow>
             if \<not> is_lambda f then Some (Inl AssertionViolation)
             else
               (case apply_beta f (length args) args of
                  Inl err \<Rightarrow> Some (Inl err)
                | Inr t' \<Rightarrow> head_beta_reduce t')))"

subsection \<open>Beta reduction one argument at a time\<close>

text \<open>
  The other side of the bulk-equivalence property, following the words of the
  specification: peel one lambda, instantiate its body with one argument, repeat, and
  reapply the arguments that were not consumed. The first number is how many nested lambdas
  are peeled; the argument stack is in the order of \<open>apply_beta\<close>, the first argument last.
  \<open>instantiate(e, s)\<close> with a single term is \<open>instantiate(e, 0, 1, &s)\<close>.
\<close>

fun num_lambdas :: "expr \<Rightarrow> nat" where
  "num_lambdas (Lambda b) = Suc (num_lambdas b)"
| "num_lambdas e = 0"

fun beta_one_at_a_time :: "nat \<Rightarrow> expr \<Rightarrow> expr list \<Rightarrow> error + expr" where
  "beta_one_at_a_time 0 f args = mk_rev_app f (length args) args"
| "beta_one_at_a_time (Suc k) (Lambda b) args =
     (if args = [] then Inr (Lambda b)
      else
        (case instantiate b 0 1 [last args] of
           Inl err \<Rightarrow> Inl err
         | Inr b' \<Rightarrow> beta_one_at_a_time k b' (butlast args)))"
| "beta_one_at_a_time (Suc k) f args = mk_rev_app f (length args) args"

text \<open>
  Substitution on unbounded indices, the function that \<open>instantiate\<close> computes when none of
  its \<open>unsigned\<close> sums overflows: under \<open>k\<close> binders the variables \<open>k, ..., k + |subst| - 1\<close>
  are replaced and the ones above move down.
\<close>

fun subst_bvars :: "expr \<Rightarrow> nat \<Rightarrow> expr list \<Rightarrow> expr" where
  "subst_bvars (BVar i) k subst =
     (if i < k then BVar i
      else if i < k + length subst then lift_loose_bvars_from (subst ! (i - k)) 0 k
      else BVar (i - length subst))"
| "subst_bvars (App f a) k subst = App (subst_bvars f k subst) (subst_bvars a k subst)"
| "subst_bvars (Lambda b) k subst = Lambda (subst_bvars b (Suc k) subst)"
| "subst_bvars (Const c ls) k subst = Const c ls"
| "subst_bvars (Sort l) k subst = Sort l"

text \<open>
  The sizes that bound the index arithmetic: the greatest index of a bound-variable node
  plus one (bound or loose), and the depth of nested binders.
\<close>

fun bvar_bound :: "expr \<Rightarrow> nat" where
  "bvar_bound (BVar i) = Suc i"
| "bvar_bound (App f a) = max (bvar_bound f) (bvar_bound a)"
| "bvar_bound (Lambda b) = bvar_bound b"
| "bvar_bound (Const c ls) = 0"
| "bvar_bound (Sort l) = 0"

fun binder_depth :: "expr \<Rightarrow> nat" where
  "binder_depth (App f a) = max (binder_depth f) (binder_depth a)"
| "binder_depth (Lambda b) = Suc (binder_depth b)"
| "binder_depth e = 0"

definition expr_weight :: "expr \<Rightarrow> nat" where
  "expr_weight e = bvar_bound e + binder_depth e"

text \<open>The term \<open>(\<lambda>x. x x) (\<lambda>x. x x)\<close>.\<close>

definition omega :: expr where
  "omega = App (Lambda (App (BVar 0) (BVar 0))) (Lambda (App (BVar 0) (BVar 0)))"

subsection \<open>Universe parameters and the instantiation cache\<close>

text \<open>
  Modelled from the spec: \<open>replace(e, F)\<close> with a callback that takes no offset, and the
  cached flag \<open>has_param_univ\<close> of a term, which says whether one of its levels mentions a
  universe parameter. What a level mentions and how parameters are substituted in a level
  (\<open>instantiate(l, lps, ls)\<close>) belong to the level module, which is outside these sources:
  they are the parameters \<open>lvl_has_param\<close> and \<open>lvl_inst\<close>. \<open>map_reuse\<close> is \<open>map\<close>.
\<close>

fun replace_fn1 :: "(expr \<Rightarrow> expr option) \<Rightarrow> expr \<Rightarrow> expr" where
  "replace_fn1 F (App f a) =
     (case F (App f a) of
        Some r \<Rightarrow> r
      | None \<Rightarrow> App (replace_fn1 F f) (replace_fn1 F a))"
| "replace_fn1 F (Lambda b) =
     (case F (Lambda b) of
        Some r \<Rightarrow> r
      | None \<Rightarrow> Lambda (replace_fn1 F b))"
| "replace_fn1 F e = (case F e of Some r \<Rightarrow> r | None \<Rightarrow> e)"

fun has_param_univ :: "(level \<Rightarrow> bool) \<Rightarrow> expr \<Rightarrow> bool" where
  "has_param_univ lvl_has_param (BVar i) = False"
| "has_param_univ lvl_has_param (App f a) =
     (has_param_univ lvl_has_param f \<or> has_param_univ lvl_has_param a)"
| "has_param_univ lvl_has_param (Lambda b) = has_param_univ lvl_has_param b"
| "has_param_univ lvl_has_param (Const c ls) = list_ex lvl_has_param ls"
| "has_param_univ lvl_has_param (Sort l) = lvl_has_param l"

text \<open>\<open>expr instantiate_lparams(expr const & e, names const & lps, levels const & ls)\<close>\<close>

definition instantiate_lparams ::
  "(level \<Rightarrow> bool) \<Rightarrow> (level \<Rightarrow> name list \<Rightarrow> level list \<Rightarrow> level)
     \<Rightarrow> expr \<Rightarrow> name list \<Rightarrow> level list \<Rightarrow> expr"
where
  "instantiate_lparams lvl_has_param lvl_inst e lps ls =
     (if \<not> has_param_univ lvl_has_param e then e
      else
        replace_fn1
          (\<lambda>e. if \<not> has_param_univ lvl_has_param e then Some e
                else
                  (case e of
                     Const c cls \<Rightarrow> Some (Const c (map (\<lambda>l. lvl_inst l lps ls) cls))
                   | Sort l \<Rightarrow> Some (Sort (lvl_inst l lps ls))
                   | _ \<Rightarrow> None))
          e)"

text \<open>
  Modelled from the spec: a declaration carries its name, its universe parameters, its type
  and its value. A \<open>constant_info\<close> is a reference to a declaration object: the identity
  that \<open>is_eqp\<close> compares is the reference itself, and the memory \<open>mem\<close> gives the object a
  reference points to. Declaration objects are immutable, and an entry of the cache keeps
  its object alive, so \<open>mem\<close> is the same for all calls.
\<close>

record decl =
  get_name :: name
  get_lparams :: "name list"
  get_type :: expr
  get_value :: expr

type_synonym constant_info = nat

text \<open>\<open>class instantiate_univ_cache\<close>\<close>

record instantiate_univ_cache =
  m_capacity :: nat
  m_cache :: "(constant_info \<times> level list \<times> expr) option list"

text \<open>The constructor \<open>instantiate_univ_cache(unsigned capacity)\<close>.\<close>

definition new_cache :: "nat \<Rightarrow> instantiate_univ_cache" where
  "new_cache capacity =
     \<lparr>m_capacity = (if capacity = 0 then capacity + 1 else capacity), m_cache = []\<rparr>"

text \<open>
  \<open>optional<expr> is_cached(constant_info const & d, levels const & ls)\<close>; the hash of a
  name is the parameter \<open>hash\<close>.
\<close>

definition is_cached ::
  "(constant_info \<Rightarrow> decl) \<Rightarrow> (name \<Rightarrow> nat) \<Rightarrow> instantiate_univ_cache
     \<Rightarrow> constant_info \<Rightarrow> level list \<Rightarrow> error + expr option"
where
  "is_cached mem hash c d ls =
     (if m_cache c = [] then Inr None
      else if length (m_cache c) \<noteq> m_capacity c then Inl AssertionViolation
      else
        let idx = hash (get_name (mem d)) mod m_capacity c in
        if \<not> idx < length (m_cache c) then Inl OutOfRange
        else
          (case m_cache c ! idx of
             Some (info_c, ls_c, r_c) \<Rightarrow>
               if info_c \<noteq> d then Inr None
               else if ls = ls_c then Inr (Some r_c)
               else Inr None
           | None \<Rightarrow> Inr None))"

text \<open>\<open>void save(constant_info const & d, levels const & ls, expr const & r)\<close>\<close>

definition save ::
  "(constant_info \<Rightarrow> decl) \<Rightarrow> (name \<Rightarrow> nat) \<Rightarrow> instantiate_univ_cache
     \<Rightarrow> constant_info \<Rightarrow> level list \<Rightarrow> expr \<Rightarrow> instantiate_univ_cache \<times> (error + unit)"
where
  "save mem hash c d ls r =
     (let c1 = (if m_cache c = [] then c\<lparr>m_cache := replicate (m_capacity c) None\<rparr> else c) in
      if length (m_cache c1) \<noteq> m_capacity c1 then (c1, Inl AssertionViolation)
      else
        let idx = hash (get_name (mem d)) mod length (m_cache c1) in
        if \<not> idx < length (m_cache c1) then (c1, Inl OutOfRange)
        else (c1\<lparr>m_cache := (m_cache c1)[idx := Some (d, ls, r)]\<rparr>, Inr ()))"

text \<open>\<open>void clear()\<close>\<close>

definition clear :: "instantiate_univ_cache \<Rightarrow> instantiate_univ_cache" where
  "clear c = c\<lparr>m_cache := []\<rparr>"

text \<open>
  \<open>expr instantiate_type_lparams(constant_info const & info, levels const & ls)\<close>, with the
  thread-local cache of \<open>get_type_univ_cache()\<close> as explicit state.
\<close>

definition instantiate_type_lparams ::
  "(constant_info \<Rightarrow> decl) \<Rightarrow> (name \<Rightarrow> nat) \<Rightarrow> (level \<Rightarrow> bool)
     \<Rightarrow> (level \<Rightarrow> name list \<Rightarrow> level list \<Rightarrow> level)
     \<Rightarrow> constant_info \<Rightarrow> level list \<Rightarrow> instantiate_univ_cache
     \<Rightarrow> instantiate_univ_cache \<times> (error + expr)"
where
  "instantiate_type_lparams mem hash lvl_has_param lvl_inst info ls cache =
     (if length (get_lparams (mem info)) \<noteq> length ls then (cache, Inl AssertionViolation)
      else if ls = [] \<or> \<not> has_param_univ lvl_has_param (get_type (mem info))
      then (cache, Inr (get_type (mem info)))
      else
        (case is_cached mem hash cache info ls of
           Inl err \<Rightarrow> (cache, Inl err)
         | Inr (Some r) \<Rightarrow> (cache, Inr r)
         | Inr None \<Rightarrow>
             let r = instantiate_lparams lvl_has_param lvl_inst (get_type (mem info))
                       (get_lparams (mem info)) ls
             in (case save mem hash cache info ls r of
                   (cache', Inl err) \<Rightarrow> (cache', Inl err)
                 | (cache', Inr u) \<Rightarrow> (cache', Inr r))))"

text \<open>
  The states of the type cache: it is created empty with its capacity, and from then on
  only \<open>instantiate_type_lparams\<close> and \<open>clear\<close> touch it.
\<close>

inductive cache_reachable ::
  "(constant_info \<Rightarrow> decl) \<Rightarrow> (name \<Rightarrow> nat) \<Rightarrow> (level \<Rightarrow> bool)
     \<Rightarrow> (level \<Rightarrow> name list \<Rightarrow> level list \<Rightarrow> level) \<Rightarrow> instantiate_univ_cache \<Rightarrow> bool"
  for mem hash lvl_has_param lvl_inst
where
  created: "cache_reachable mem hash lvl_has_param lvl_inst (new_cache capacity)"
| called: "cache_reachable mem hash lvl_has_param lvl_inst c \<Longrightarrow>
           instantiate_type_lparams mem hash lvl_has_param lvl_inst info ls c = (c', r) \<Longrightarrow>
           cache_reachable mem hash lvl_has_param lvl_inst c'"
| cleared: "cache_reachable mem hash lvl_has_param lvl_inst c \<Longrightarrow>
            cache_reachable mem hash lvl_has_param lvl_inst (clear c)"

text \<open>
  An entry of the type cache is right when it holds what \<open>instantiate_lparams\<close> computes
  for its declaration and levels.
\<close>

definition cache_ok ::
  "(constant_info \<Rightarrow> decl) \<Rightarrow> (level \<Rightarrow> bool)
     \<Rightarrow> (level \<Rightarrow> name list \<Rightarrow> level list \<Rightarrow> level) \<Rightarrow> instantiate_univ_cache \<Rightarrow> bool"
where
  "cache_ok mem lvl_has_param lvl_inst c =
     (0 < m_capacity c
      \<and> (m_cache c = [] \<or> length (m_cache c) = m_capacity c)
      \<and> (\<forall>entry \<in> set (m_cache c).
            case entry of
              None \<Rightarrow> True
            | Some (d, ls, r) \<Rightarrow>
                r = instantiate_lparams lvl_has_param lvl_inst (get_type (mem d))
                      (get_lparams (mem d)) ls))"

text \<open>
  A small memory for concrete runs: two declaration objects with the same name, and hence
  the same bucket, but different types; and a level substitution that puts the first
  concrete level for every parameter.
\<close>

definition two_decls :: "constant_info \<Rightarrow> decl" where
  "two_decls i =
     (if i = 0
      then \<lparr>get_name = ''f'', get_lparams = [''u''], get_type = Sort (UVar ''u'' 1),
            get_value = BVar 0\<rparr>
      else \<lparr>get_name = ''f'', get_lparams = [''u''], get_type = Const ''c'' [UVar ''u'' 1],
            get_value = BVar 0\<rparr>)"

definition first_level :: "level \<Rightarrow> name list \<Rightarrow> level list \<Rightarrow> level" where
  "first_level l lps ls = (case ls of [] \<Rightarrow> l | x # xs \<Rightarrow> x)"
section \<open>Properties of the universe constraint environment\<close>

lemma uint_uninit: "uint uninit = 2147483647"
  by (simp add: uninit_def)

lemma add_unsigned_Inr:
  assumes "add_unsigned v k = Inr r"
  shows "uint r = uint v + uint k" and "uint r \<le> 2147483646"
proof -
  from assms have le: "uint v + uint k \<le> 2147483646" and r: "r = word_of_int (uint v + uint k)"
    by (auto simp: add_unsigned_def Let_def split: if_splits)
  have "uint v + uint k < 2 ^ LENGTH(32)" using le by simp
  then have "uint (v + k) = uint v + uint k"
    by (simp only: uint_add_lem)
  moreover have "r = v + k" using r by simp
  ultimately show "uint r = uint v + uint k" and "uint r \<le> 2147483646" using le by simp_all
qed

lemma add_unsigned_Inl: "add_unsigned v k = Inl e \<Longrightarrow> e = UniverseOverflow"
  by (auto simp: add_unsigned_def Let_def split: if_splits)


lemma add_unsigned_less_uninit: "add_unsigned v k = Inr r \<Longrightarrow> r < uninit"
  using add_unsigned_Inr(2)[of v k r] uint_uninit by (simp add: word_less_def)

lemma length_set2 [simp]: "length (set2 m i j v) = length m"
  by (simp add: set2_def)

lemma set2_other_row: "i' \<noteq> i \<Longrightarrow> set2 m i j v ! i' = m ! i'"
  by (simp add: set2_def)

lemma set2_row_length: "length (set2 m i j v ! i') = length (m ! i')"
  by (cases "i' = i"; cases "i < length m") (simp_all add: set2_def list_update_beyond)


lemma at2_SomeD: "at2 m i j = Some x \<Longrightarrow> i < length m \<and> j < length (m ! i) \<and> m ! i ! j = x"
  by (auto simp: at2_def split: if_splits)

text \<open>The ways one iteration of the loop can go.\<close>

lemma loop_ConsE:
  assumes "add_constraint_loop v1 v2 d (v3 # vs) m = (m', r)"
  obtains (fail) e where "m' = m" and "r = Inl e"
    | (skip) "at2 m v2 v3 = Some uninit" and "add_constraint_loop v1 v2 d vs m = (m', r)"
    | (keep) d23 d13 old where "at2 m v2 v3 = Some d23" and "d23 \<noteq> uninit" and "v1 \<noteq> v3"
        and "add_unsigned d d23 = Inr d13" and "at2 m v1 v3 = Some old"
        and "old \<noteq> uninit" and "\<not> old \<le> d13"
        and "add_constraint_loop v1 v2 d vs m = (m', r)"
    | (store) d23 d13 old where "at2 m v2 v3 = Some d23" and "d23 \<noteq> uninit" and "v1 \<noteq> v3"
        and "add_unsigned d d23 = Inr d13" and "at2 m v1 v3 = Some old"
        and "old = uninit \<or> old \<le> d13"
        and "add_constraint_loop v1 v2 d vs (set2 m v1 v3 d13) = (m', r)"
  using assms by (auto split: option.splits if_splits sum.splits)

lemma loop_frame:
  "add_constraint_loop v1 v2 d vs m = (m', r) \<Longrightarrow>
     length m' = length m \<and> (\<forall>i. length (m' ! i) = length (m ! i)) \<and> (\<forall>i. i \<noteq> v1 \<longrightarrow> m' ! i = m ! i)"
proof (induction vs arbitrary: m)
  case Nil
  then show ?case by simp
next
  case (Cons v3 vs)
  from Cons.prems show ?case
  proof (cases rule: loop_ConsE)
    case (fail e)
    then show ?thesis by simp
  next
    case skip
    then show ?thesis using Cons.IH by blast
  next
    case (keep d23 d13 old)
    then show ?thesis using Cons.IH by blast
  next
    case (store d23 d13 old)
    from Cons.IH[OF store(7)] show ?thesis
      by (simp add: set2_row_length set2_other_row)
  qed
qed

lemma loop_entry:
  assumes "add_constraint_loop v1 v2 d vs m = (m', r)" and "v1 \<noteq> v2" and "distinct vs"
  shows "m' ! v1 ! j = m ! v1 ! j \<or>
         (j \<in> set vs \<and> v1 < length m \<and> j < length (m ! v1) \<and> m ! v2 ! j \<noteq> uninit \<and>
          uint (m' ! v1 ! j) = uint d + uint (m ! v2 ! j) \<and> uint (m' ! v1 ! j) \<le> 2147483646 \<and>
          (m ! v1 ! j = uninit \<or> m ! v1 ! j \<le> m' ! v1 ! j))"
  using assms
proof (induction vs arbitrary: m)
  case Nil
  then show ?case by simp
next
  case (Cons v3 vs)
  from Cons.prems(3) have dvs: "distinct vs" and v3: "v3 \<notin> set vs" by simp_all
  from Cons.prems(1) show ?case
  proof (cases rule: loop_ConsE)
    case (fail e)
    then show ?thesis by simp
  next
    case skip
    from Cons.IH[OF skip(2) Cons.prems(2) dvs] show ?thesis by auto
  next
    case (keep d23 d13 old)
    from Cons.IH[OF keep(8) Cons.prems(2) dvs] show ?thesis by auto
  next
    case (store d23 d13 old)
    let ?m1 = "set2 m v1 v3 d13"
    note IH = Cons.IH[OF store(7) Cons.prems(2) dvs]
    from store(5) have b1: "v1 < length m" "v3 < length (m ! v1)" "m ! v1 ! v3 = old"
      using at2_SomeD by blast+
    from store(1) have b2: "m ! v2 ! v3 = d23" using at2_SomeD by blast
    have row2: "?m1 ! v2 = m ! v2" using Cons.prems(2) by (simp add: set2_other_row)
    show ?thesis
    proof (cases "j = v3")
      case True
      with IH v3 have "m' ! v1 ! j = ?m1 ! v1 ! v3" by auto
      also have "\<dots> = d13" using b1 by (simp add: set2_def)
      finally have eq: "m' ! v1 ! j = d13" .
      have "old = uninit \<or> old \<le> d13" by (rule store(6))
      with eq True b1 b2 store(2) add_unsigned_Inr[OF store(4)] show ?thesis by auto
    next
      case False
      then have same: "?m1 ! v1 ! j = m ! v1 ! j"
        by (cases "v1 < length m") (simp_all add: set2_def list_update_beyond)
      have len: "length (?m1 ! v1) = length (m ! v1)" by (rule set2_row_length)
      from IH show ?thesis unfolding row2 same len by auto
    qed
  qed
qed


lemma add_constraintE:
  assumes "add_constraint v1 v2 d m = (m', r)"
  obtains (same) "m' = m"
    | (run) old where "v1 \<noteq> v2" and "v1 < length m" and "v2 < length m"
        and "at2 m v1 v2 = Some old" and "old = uninit \<or> old \<le> d"
        and "add_constraint_loop v1 v2 d [0..<length m] (set2 m v1 v2 d) = (m', r)"
  using assms by (auto simp: add_constraint_def Let_def split: option.splits if_splits)

lemma sub_Inr:
  fixes k :: i32 and off :: u32
  assumes "\<not> sint k - uint off < - 2147483648"
  shows "sint (word_of_int (sint k - uint off) :: i32) = sint k - uint off"
proof -
  have a: "sint k < 2147483648" using sint_lt[of k] by simp
  have b: "0 \<le> uint off" by simp
  from a b have "sint k - uint off < 2147483648" by linarith
  with assms have "signed_take_bit (LENGTH(32) - 1) (sint k - uint off) = sint k - uint off"
    by (intro signed_take_bit_int_eq_self) simp_all
  then show ?thesis
    by (simp only: sint_sbintrunc')
qed

subsection \<open>Insertions out of a variable without incoming bounds keep the matrix closed\<close>








lemma add_var_matrix:
  assumes "add_var n env = (env1, Inr r)"
  shows "r = UVar n (length (m_uvars env))"
    and "m_uvars env1 = m_uvars env @ [r]"
    and "m_uvar_distances env1 =
           map (\<lambda>v. v @ [uninit]) (m_uvar_distances env)
           @ [(replicate (Suc (length (m_uvars env))) uninit)[length (m_uvars env) := 0]]"
  using assms by (auto simp: add_var_def Let_def split: if_splits)







text \<open>Unfolding the operations on a concrete matrix.\<close>

lemmas env_eval = add_constraint_def at2_def set2_def uninit_def add_unsigned_def add_var_def
  init_uvars_def upt_rec Let_def sub_def add_int_def define_uvar_def

subsection \<open>What an insertion changes\<close>

lemma set2_entry:
  "set2 m i j v ! i' ! j' = m ! i' ! j' \<or> (i' = i \<and> j' = j \<and> set2 m i j v ! i' ! j' = v)"
proof (cases "i' = i \<and> i < length m")
  case True
  then show ?thesis
    by (cases "j < length (m ! i)"; cases "j' = j") (simp_all add: set2_def list_update_beyond)
next
  case False
  then show ?thesis by (cases "i' = i") (simp_all add: set2_def list_update_beyond)
qed

lemma add_constraint_frame:
  assumes "add_constraint v1 v2 d m = (m', r)"
  shows "length m' = length m \<and> (\<forall>i. length (m' ! i) = length (m ! i))
         \<and> (\<forall>i. i \<noteq> v1 \<longrightarrow> m' ! i = m ! i)"
  using assms
proof (cases rule: add_constraintE)
  case same
  then show ?thesis by simp
next
  case (run old)
  from loop_frame[OF run(6)] show ?thesis by (simp add: set2_row_length set2_other_row)
qed

lemma add_constraints_frame:
  "add_constraints v1 l k m = (m', r) \<Longrightarrow>
     length m' = length m \<and> (\<forall>i. length (m' ! i) = length (m ! i))
     \<and> (\<forall>i. i \<noteq> v1 \<longrightarrow> m' ! i = m ! i)"
  "add_constraints_each v1 ls k m = (m', r) \<Longrightarrow>
     length m' = length m \<and> (\<forall>i. length (m' ! i) = length (m ! i))
     \<and> (\<forall>i. i \<noteq> v1 \<longrightarrow> m' ! i = m ! i)"
proof (induction v1 l k m and v1 ls k m arbitrary: m' r and m' r
    rule: add_constraints_add_constraints_each.induct)
  case (1 v1 n i k m)
  then have "add_constraint v1 i k m = (m', r)" by simp
  then show ?case by (rule add_constraint_frame)
next
  case (2 v1 l off k m)
  show ?case
  proof (cases "add_unsigned k off")
    case (Inl e)
    with "2.prems" show ?thesis by simp
  next
    case (Inr k')
    with "2.prems" have "add_constraints v1 l k' m = (m', r)" by simp
    from "2.IH"[OF Inr this] show ?thesis .
  qed
next
  case (3 v1 ls k m)
  then show ?case by simp
next
  case (4 v1 k m)
  then show ?case by simp
next
  case (5 v1 l ls k m)
  obtain m1 r1 where c: "add_constraints v1 l k m = (m1, r1)" by (cases "add_constraints v1 l k m")
  note f1 = "5.IH"(1)[OF c]
  show ?case
  proof (cases r1)
    case (Inl e)
    with "5.prems" c have "m' = m1" by simp
    with f1 show ?thesis by simp
  next
    case (Inr u)
    with "5.prems" c have b: "add_constraints_each v1 ls k m1 = (m', r)" by simp
    from "5.IH"(2)[OF c[symmetric] Inr b] f1 show ?thesis by simp
  qed
qed

lemma add_constraint_changed:
  assumes "add_constraint v1 v2 d m = (m', r)" and "d < uninit"
  shows "m' ! i ! j = m ! i ! j \<or> m' ! i ! j < uninit"
  using assms(1)
proof (cases rule: add_constraintE)
  case same
  then show ?thesis by simp
next
  case (run old)
  let ?m1 = "set2 m v1 v2 d"
  show ?thesis
  proof (cases "i = v1")
    case False
    with loop_frame[OF run(6)] show ?thesis by (simp add: set2_other_row)
  next
    case True
    from loop_entry[OF run(6) run(1), of j]
    have "m' ! v1 ! j = ?m1 ! v1 ! j \<or> uint (m' ! v1 ! j) \<le> 2147483646" by auto
    then show ?thesis
    proof
      assume "m' ! v1 ! j = ?m1 ! v1 ! j"
      with set2_entry[of m v1 v2 d v1 j] assms(2) True show ?thesis by auto
    next
      assume "uint (m' ! v1 ! j) \<le> 2147483646"
      then show ?thesis using True by (simp add: word_less_def uint_uninit)
    qed
  qed
qed

lemma add_constraints_changed:
  "add_constraints v1 l k m = (m', r) \<Longrightarrow> k < uninit \<Longrightarrow>
     m' ! i ! j = m ! i ! j \<or> m' ! i ! j < uninit"
  "add_constraints_each v1 ls k m = (m', r) \<Longrightarrow> k < uninit \<Longrightarrow>
     m' ! i ! j = m ! i ! j \<or> m' ! i ! j < uninit"
proof (induction v1 l k m and v1 ls k m arbitrary: m' r and m' r
    rule: add_constraints_add_constraints_each.induct)
  case (1 v1 n i' k m)
  then have "add_constraint v1 i' k m = (m', r)" by simp
  from add_constraint_changed[OF this "1.prems"(2)] show ?case .
next
  case (2 v1 l off k m)
  show ?case
  proof (cases "add_unsigned k off")
    case (Inl e)
    with "2.prems" show ?thesis by simp
  next
    case (Inr k')
    with "2.prems" have "add_constraints v1 l k' m = (m', r)" by simp
    from "2.IH"[OF Inr this add_unsigned_less_uninit[OF Inr]] show ?thesis .
  qed
next
  case (3 v1 ls k m)
  then show ?case by simp
next
  case (4 v1 k m)
  then show ?case by simp
next
  case (5 v1 l ls k m)
  obtain m1 r1 where c: "add_constraints v1 l k m = (m1, r1)" by (cases "add_constraints v1 l k m")
  note f1 = "5.IH"(1)[OF c "5.prems"(2)]
  show ?case
  proof (cases r1)
    case (Inl e)
    with "5.prems" c have "m' = m1" by simp
    with f1 show ?thesis by simp
  next
    case (Inr u)
    with "5.prems" c have b: "add_constraints_each v1 ls k m1 = (m', r)" by simp
    from "5.IH"(2)[OF c[symmetric] Inr b "5.prems"(2)] f1 show ?thesis by auto
  qed
qed

lemma zero_less_uninit: "(0 :: u32) < uninit"
  by (simp add: uninit_def)

lemma define_uvarE:
  assumes "define_uvar n l env = (env', r)"
  obtains (declared) "env' = env" and "r = Inl AlreadyDeclared"
      and "add_var n env = (env, Inl AlreadyDeclared)"
    | (run) env1 m' r' where "add_var n env = (env1, Inr (UVar n (length (m_uvars env))))"
      and "add_constraints (length (m_uvars env)) l 0 (m_uvar_distances env1) = (m', r')"
      and "env' = env1\<lparr>m_uvar_distances := m'\<rparr>"
      and "r = (case r' of Inl e \<Rightarrow> Inl e | Inr u \<Rightarrow> Inr (UVar n (length (m_uvars env))))"
proof (cases "list_ex (\<lambda>l. uvar_name l = Some n) (m_uvars env)")
  case True
  then have "add_var n env = (env, Inl AlreadyDeclared)" by (simp add: add_var_def)
  with assms declared show ?thesis by (simp add: define_uvar_def)
next
  case False
  obtain env1 where av: "add_var n env = (env1, Inr (UVar n (length (m_uvars env))))"
    using False by (simp add: add_var_def Let_def)
  obtain m' r' where ac:
    "add_constraints (length (m_uvars env)) l 0 (m_uvar_distances env1) = (m', r')"
    by (cases "add_constraints (length (m_uvars env)) l 0 (m_uvar_distances env1)")
  from assms av ac have "env' = env1\<lparr>m_uvar_distances := m'\<rparr>"
    and "r = (case r' of Inl e \<Rightarrow> Inl e | Inr u \<Rightarrow> Inr (UVar n (length (m_uvars env))))"
    by (cases r'; simp add: define_uvar_def)+
  with av ac run show ?thesis by blast
qed



lemma add_var_rows:
  assumes "add_var n env = (env1, Inr r)"
  shows "length (m_uvar_distances env1) = Suc (length (m_uvar_distances env))"
    and "i < length (m_uvar_distances env) \<Longrightarrow>
           m_uvar_distances env1 ! i = m_uvar_distances env ! i @ [uninit]"
  using add_var_matrix(3)[OF assms] by (simp_all add: nth_append)

lemma add_var_entries:
  assumes "add_var n env = (env1, Inr r)"
    and "i < length (m_uvar_distances env1)" and "j < length (m_uvar_distances env1 ! i)"
  shows "m_uvar_distances env1 ! i ! j = uninit \<or> m_uvar_distances env1 ! i ! j = 0
         \<or> (i < length (m_uvar_distances env) \<and> j < length (m_uvar_distances env ! i)
            \<and> m_uvar_distances env1 ! i ! j = m_uvar_distances env ! i ! j)"
proof (cases "i < length (m_uvar_distances env)")
  case True
  from add_var_rows(2)[OF assms(1) True] assms(3) show ?thesis
    using True by (cases "j < length (m_uvar_distances env ! i)") (auto simp: nth_append)
next
  case False
  let ?k = "length (m_uvars env)"
  from False assms(2) add_var_rows(1)[OF assms(1)] have i: "i = length (m_uvar_distances env)"
    by simp
  have "length (map (\<lambda>v. v @ [uninit]) (m_uvar_distances env)) = length (m_uvar_distances env)"
    by simp
  then have row: "m_uvar_distances env1 ! i = (replicate (Suc ?k) uninit)[?k := 0]"
    unfolding add_var_matrix(3)[OF assms(1)] i by (metis nth_append_length)
  from assms(3) have j: "j < Suc ?k"
    by (simp only: row length_list_update length_replicate)
  have "(replicate (Suc ?k) uninit)[?k := 0] ! j = (if j = ?k then 0 else uninit)"
    using j by (simp add: nth_list_update del: replicate_Suc)
  with row show ?thesis by auto
qed

lemma reachable_bounded:
  "reachable base env \<Longrightarrow> i < length (m_uvar_distances env)
     \<Longrightarrow> j < length (m_uvar_distances env ! i) \<Longrightarrow> m_uvar_distances env ! i ! j \<le> uninit"
proof (induction arbitrary: i j rule: reachable.induct)
  case init
  then show ?case by (simp add: init_uvars_def)
next
  case (step env n l env' r)
  from step(2) obtain env1 m' r' where
    av: "add_var n env = (env1, Inr (UVar n (length (m_uvars env))))"
    and ac: "add_constraints (length (m_uvars env)) l 0 (m_uvar_distances env1) = (m', r')"
    and e: "env' = env1\<lparr>m_uvar_distances := m'\<rparr>"
    by (cases rule: define_uvarE) auto
  note fr = add_constraints_frame(1)[OF ac]
  from step.prems e fr have i: "i < length (m_uvar_distances env1)"
    and j: "j < length (m_uvar_distances env1 ! i)" by simp_all
  have z: "(0 :: u32) \<le> uninit" by simp
  have "m_uvar_distances env1 ! i ! j \<le> uninit"
    using add_var_entries[OF av i j] step.IH[of i j] z by auto
  moreover from add_constraints_changed(1)[OF ac zero_less_uninit, of i j]
  have "m' ! i ! j = m_uvar_distances env1 ! i ! j \<or> m' ! i ! j < uninit" .
  ultimately show ?case using e by auto
qed

section \<open>The claims about the universe constraint environment\<close>

subsection \<open>Transitive closure (claim C1)\<close>




subsection \<open>Concrete scenario 1 (claim C2)\<close>


subsection \<open>Checked subtraction in \<open>is_ge\<close> (claim C4)\<close>

text \<open>
  Claim C4, as stated, fails: when \<open>k - off\<close> underflows, \<open>sub\<close> throws and \<open>is_ge\<close> ends
  with the universe-overflow exception; it does not return false.
\<close>

theorem is_ge_lift_underflow_counterexample:
  "is_ge [[0]] (Lift (UVar ''u0'' 0) 1) (UVar ''u0'' 0) (- 2147483648) = Inl UniverseOverflow
   \<and> is_ge [[0]] (Lift (UVar ''u0'' 0) 1) (UVar ''u0'' 0) (- 2147483648) \<noteq> Inr False"
  by (simp add: sub_def)

text \<open>
  Claim C4 (amended): when \<open>L2\<close> is a universe variable and \<open>L1 = lift(L1', off)\<close>,
  \<open>is_ge(L1, L2, k)\<close> recurses as \<open>is_ge(L1', L2, k - off)\<close> with a checked subtraction: when
  \<open>k - off\<close> is below the least \<open>int\<close> the query fails with the universe-overflow exception,
  and otherwise the offset passed on is exactly \<open>k - off\<close> (no wrap-around).
\<close>

theorem is_ge_lift_uvar:
  "(if sint k - uint off < - 2147483648
    then is_ge m (Lift l1 off) (UVar n2 i2) k = Inl UniverseOverflow
    else is_ge m (Lift l1 off) (UVar n2 i2) k
           = is_ge m l1 (UVar n2 i2) (word_of_int (sint k - uint off))
         \<and> sint (word_of_int (sint k - uint off) :: i32) = sint k - uint off)"
  using sub_Inr[of k off] by (simp add: sub_def)

theorem is_ge_lift_uvar_witness:
  "is_ge [[0]] (Lift (UVar ''u0'' 0) 1) (UVar ''u0'' 0) (- 2147483648) = Inl UniverseOverflow
   \<and> is_ge [[5]] (Lift (UVar ''u0'' 0) 3) (UVar ''u0'' 0) 7 = is_ge [[5]] (UVar ''u0'' 0) (UVar ''u0'' 0) 4
   \<and> is_ge [[5]] (Lift (UVar ''u0'' 0) 3) (UVar ''u0'' 0) 7 = Inr True"
  using is_ge_lift_uvar[of "- 2147483648" 1 "[[0]]" "UVar ''u0'' 0" "''u0''" 0]
    is_ge_lift_uvar[of 7 3 "[[5]]" "UVar ''u0'' 0" "''u0''" 0]
  by (simp add: at2_def uninit_def)

subsection \<open>A failing insertion (claim C3)\<close>




subsection \<open>Stored distances and the sentinel (claim C10)\<close>

text \<open>
  Claim C10: a result of the checked unsigned addition is below \<open>uninit\<close>; every entry that
  \<open>add_constraint(v1, v2, d)\<close> changes holds a value below \<open>uninit\<close> when \<open>d\<close> is below \<open>uninit\<close>;
  so does every entry that \<open>add_constraints(v1, l, k)\<close> changes when \<open>k\<close> is below \<open>uninit\<close>, and
  every entry in which the matrix left by \<open>define_uvar\<close> (which starts \<open>add_constraints\<close> with
  \<open>k = 0\<close>) differs from the one \<open>add_var\<close> built, whether the call returns or throws. In a
  reachable environment every entry is the sentinel or below it.
\<close>

theorem stored_distances_below_uninit:
  "(add_unsigned a b = Inr c \<longrightarrow> c < uninit)
   \<and> (d < uninit \<and> add_constraint v1 v2 d m = (m', r) \<longrightarrow>
        (\<forall>i < length m'. \<forall>j < length (m' ! i). m' ! i ! j \<noteq> m ! i ! j \<longrightarrow> m' ! i ! j < uninit))
   \<and> (k < uninit \<and> add_constraints w l k m = (m'', r') \<longrightarrow>
        (\<forall>i < length m''. \<forall>j < length (m'' ! i). m'' ! i ! j \<noteq> m ! i ! j \<longrightarrow> m'' ! i ! j < uninit))
   \<and> (define_uvar n lv env = (env', r'') \<longrightarrow>
        (\<forall>i < length (m_uvar_distances env'). \<forall>j < length (m_uvar_distances env' ! i).
           m_uvar_distances env' ! i ! j \<noteq> m_uvar_distances (fst (add_var n env)) ! i ! j
           \<longrightarrow> m_uvar_distances env' ! i ! j < uninit))
   \<and> (reachable base env \<longrightarrow>
        (\<forall>i < length (m_uvar_distances env). \<forall>j < length (m_uvar_distances env ! i).
           m_uvar_distances env ! i ! j \<le> uninit))"
proof (intro conjI impI allI)
  assume "add_unsigned a b = Inr c"
  then show "c < uninit" by (rule add_unsigned_less_uninit)
next
  fix i j
  assume "d < uninit \<and> add_constraint v1 v2 d m = (m', r)" and "m' ! i ! j \<noteq> m ! i ! j"
  with add_constraint_changed[of v1 v2 d m m' r i j] show "m' ! i ! j < uninit" by simp
next
  fix i j
  assume "k < uninit \<and> add_constraints w l k m = (m'', r')" and "m'' ! i ! j \<noteq> m ! i ! j"
  with add_constraints_changed(1)[of w l k m m'' r' i j] show "m'' ! i ! j < uninit" by simp
next
  fix i j
  assume du: "define_uvar n lv env = (env', r'')"
    and ne: "m_uvar_distances env' ! i ! j \<noteq> m_uvar_distances (fst (add_var n env)) ! i ! j"
  from du show "m_uvar_distances env' ! i ! j < uninit"
  proof (cases rule: define_uvarE)
    case declared
    with ne show ?thesis by simp
  next
    case (run env1 m1 r1)
    from add_constraints_changed(1)[OF run(2) zero_less_uninit, of i j] run(1,3) ne
    show ?thesis by simp
  qed
next
  fix i j
  assume "reachable base env" "i < length (m_uvar_distances env)"
    "j < length (m_uvar_distances env ! i)"
  then show "m_uvar_distances env ! i ! j \<le> uninit" by (rule reachable_bounded)
qed

theorem stored_distances_below_uninit_witness:
  "(let r = define_uvar ''u1'' (Lift (UVar ''u0'' 0) 3) (init_uvars ''u0'')
    in snd r = Inr (UVar ''u1'' 1)
       \<and> m_uvar_distances (fst r) = [[0, uninit], [3, 0]]
       \<and> m_uvar_distances (fst (add_var ''u1'' (init_uvars ''u0''))) = [[0, uninit], [uninit, 0]]
       \<and> m_uvar_distances (fst r) ! 1 ! 0 < uninit)
   \<and> add_unsigned 0 3 = Inr 3 \<and> (3 :: u32) < uninit
   \<and> add_constraint 1 0 3 [[0, uninit], [uninit, 0]] = ([[0, uninit], [3, 0]], Inr ())
   \<and> add_constraints 1 (Lift (UVar ''u0'' 0) 3) 0 [[0, uninit], [uninit, 0]]
       = ([[0, uninit], [3, 0]], Inr ())"
proof -
  define env1 where "env1 = fst (define_uvar ''u1'' (Lift (UVar ''u0'' 0) 3) (init_uvars ''u0''))"
  have e1: "define_uvar ''u1'' (Lift (UVar ''u0'' 0) 3) (init_uvars ''u0'')
              = (env1, Inr (UVar ''u1'' 1))"
    by (simp add: env1_def env_eval)
  have v1: "m_uvar_distances env1 = [[0, uninit], [3, 0]]"
    by (simp add: env1_def env_eval)
  have v0: "m_uvar_distances (fst (add_var ''u1'' (init_uvars ''u0''))) = [[0, uninit], [uninit, 0]]"
    by (simp add: env_eval)
  have au: "add_unsigned 0 3 = Inr 3" by (simp add: add_unsigned_def)
  have ac: "add_constraint 1 0 3 [[0, uninit], [uninit, 0]] = ([[0, uninit], [3, 0]], Inr ())"
    by (simp add: env_eval)
  have acs: "add_constraints 1 (Lift (UVar ''u0'' 0) 3) 0 [[0, uninit], [uninit, 0]]
       = ([[0, uninit], [3, 0]], Inr ())"
    by (simp add: env_eval)
  have lt: "(3 :: u32) < uninit" "(0 :: u32) < uninit" by (simp_all add: uninit_def)
  have re: "reachable ''u0'' env1" by (rule reachable.step[OF reachable.init e1])
  note t = stored_distances_below_uninit[of 0 3 3 3 1 0 "[[0, uninit], [uninit, 0]]"
      "[[0, uninit], [3, 0]]" "Inr ()" 0 1 "Lift (UVar ''u0'' 0) 3" "[[0, uninit], [3, 0]]" "Inr ()"
      "''u1''" "Lift (UVar ''u0'' 0) 3" "init_uvars ''u0''" env1 "Inr (UVar ''u1'' 1)" "''u0''"]
  from t e1 have "\<forall>i < length (m_uvar_distances env1). \<forall>j < length (m_uvar_distances env1 ! i).
           m_uvar_distances env1 ! i ! j \<noteq> m_uvar_distances (fst (add_var ''u1'' (init_uvars ''u0''))) ! i ! j
           \<longrightarrow> m_uvar_distances env1 ! i ! j < uninit"
    by blast
  from this[rule_format, of 1 0]
  have "m_uvar_distances env1 ! 1 ! 0 \<noteq> m_uvar_distances (fst (add_var ''u1'' (init_uvars ''u0''))) ! 1 ! 0
           \<longrightarrow> m_uvar_distances env1 ! 1 ! 0 < uninit"
    by (simp add: v1)
  then have g: "m_uvar_distances env1 ! 1 ! 0 < uninit"
    by (simp add: v1 v0 uninit_def)
  from e1 v1 v0 g au ac acs lt show ?thesis
    unfolding Let_def env1_def[symmetric] by simp
qed


section \<open>Properties of the substitution engine\<close>

text \<open>Unfolding the operations on a concrete term.\<close>

lemmas expr_eval = instantiate_def instantiate_rev_def has_loose_bvars_def array_read_def
  apply_beta_def instantiate_fn_def instantiate_rev_fn_def unsigned_add_def unsigned_sub_def
  get_small_value_def lift_loose_bvars_def is_head_beta_def Let_def

subsection \<open>Unsigned index arithmetic and the reversed substitution\<close>

lemma unsigned_add_less: "unsigned_add a b < 4294967296"
  by (simp add: unsigned_add_def)

lemma replace_fn_cong:
  assumes "\<And>m k. k < 4294967296 \<Longrightarrow> F m k = G m k"
  shows "offset < 4294967296 \<Longrightarrow> replace_fn F e offset = replace_fn G e offset"
proof (induction e arbitrary: offset)
  case (App f a)
  from App.IH(1)[OF App.prems] App.IH(2)[OF App.prems] assms[OF App.prems]
  show ?case by (simp split: sum.splits option.splits)
next
  case (Lambda b)
  from Lambda.IH[OF unsigned_add_less] assms[OF Lambda.prems]
  show ?case by (simp split: sum.splits option.splits)
qed (use assms in simp_all)

lemma unsigned_sub_le: "b \<le> a \<Longrightarrow> a < 4294967296 \<Longrightarrow> unsigned_sub a b = a - b"
proof -
  assume h: "b \<le> a" "a < 4294967296"
  then have "a + 4294967296 - b = (a - b) + 4294967296" by arith
  moreover have "a - b < 4294967296" using h by arith
  ultimately show ?thesis unfolding unsigned_sub_def by (simp only: mod_add_self2 mod_less)
qed

lemma unsigned_sub_gt: "a < b \<Longrightarrow> b \<le> 4294967296 \<Longrightarrow> unsigned_sub a b = a + 4294967296 - b"
proof -
  assume h: "a < b" "b \<le> 4294967296"
  then have "a + 4294967296 - b < 4294967296" by arith
  then show ?thesis unfolding unsigned_sub_def by (simp only: mod_less)
qed

lemma rev_index:
  assumes "i < n" and "n < 4294967296"
  shows "unsigned_sub (unsigned_sub n i) (Suc 0) = n - Suc i"
proof -
  have "unsigned_sub n i = n - i" using assms by (intro unsigned_sub_le) simp_all
  moreover have "unsigned_sub (n - i) (Suc 0) = n - i - Suc 0"
    using assms by (intro unsigned_sub_le) simp_all
  ultimately show ?thesis by simp
qed

lemma rev_index_out:
  assumes "n \<le> i" and "i < 4294967296"
  shows "n \<le> unsigned_sub (unsigned_sub n i) (Suc 0)"
proof (cases "n = i")
  case True
  then have "unsigned_sub n i = 0" using assms by (simp add: unsigned_sub_le)
  moreover have "unsigned_sub 0 (Suc 0) = 4294967295" by (simp add: unsigned_sub_def)
  ultimately show ?thesis using assms True by simp
next
  case False
  with assms have lt: "n < i" by simp
  then have e: "unsigned_sub n i = n + 4294967296 - i" using assms by (intro unsigned_sub_gt) simp_all
  have "1 \<le> n + 4294967296 - i" "n + 4294967296 - i < 4294967296" using lt assms by arith+
  then have "unsigned_sub (n + 4294967296 - i) (Suc 0) = n + 4294967296 - i - Suc 0"
    by (intro unsigned_sub_le) simp_all
  with e assms show ?thesis by arith
qed

lemma easy_fn_rev:
  "length subst = n \<Longrightarrow> n < 4294967296 \<Longrightarrow>
   instantiate_easy_fn True n subst a app = instantiate_easy_fn False n (rev subst) a app"
proof (induction a arbitrary: app)
  case (BVar i)
  then show ?case by (auto simp: array_read_def rev_nth rev_index)
next
  case (App f a)
  from App.IH(1)[OF App.prems] App.IH(2)[OF App.prems]
  show ?case by (simp split: sum.splits option.splits)
qed simp_all

lemma fn_rev:
  assumes len: "length subst = n" and n: "n < 4294967296" and k: "offset < 4294967296"
  shows "instantiate_rev_fn n subst m offset = instantiate_fn 0 n (rev subst) m offset"
proof -
  have s1: "unsigned_add 0 offset = offset" using k by (simp add: unsigned_add_def)
  show ?thesis
  proof (cases m)
    case (BVar vidx)
    have rd: "array_read subst (unsigned_sub (unsigned_sub n (unsigned_sub vidx offset)) 1)
                = array_read (rev subst) (unsigned_sub vidx offset)"
      if "vidx < 4294967296" "offset \<le> vidx"
    proof -
      have u: "unsigned_sub vidx offset = vidx - offset" using that by (intro unsigned_sub_le)
      show ?thesis
      proof (cases "vidx - offset < n")
        case True
        with rev_index[OF True n] len show ?thesis by (simp add: u array_read_def rev_nth)
      next
        case False
        then have "n \<le> vidx - offset" by simp
        moreover from that have "vidx - offset < 4294967296" by simp
        ultimately have "n \<le> unsigned_sub (unsigned_sub n (vidx - offset)) (Suc 0)"
          by (rule rev_index_out)
        with False len show ?thesis by (simp add: u array_read_def)
      qed
    qed
    show ?thesis
      unfolding instantiate_rev_fn_def instantiate_fn_def s1 Let_def BVar
      using rd by (auto simp: get_small_value_def)
  qed (simp_all add: instantiate_rev_fn_def instantiate_fn_def s1)
qed

subsection \<open>Head beta reduction\<close>

lemma apply_beta_omega:
  "apply_beta (Lambda (App (BVar 0) (BVar 0))) (Suc 0) [Lambda (App (BVar 0) (BVar 0))] = Inr omega"
  by (simp add: expr_eval omega_def)

lemmas head_beta_reduce_induct =
  head_beta_reduce.raw_induct[rotated, consumes 1, case_names step]

lemma omega_never_returns: "head_beta_reduce t = Some y \<Longrightarrow> t \<noteq> omega"
proof (induction rule: head_beta_reduce_induct)
  case (step hbr t y)
  show ?case
  proof
    assume t: "t = omega"
    with step(2) have "hbr omega = Some y"
      using apply_beta_omega by (simp add: omega_def is_head_beta_def)
    from step(1)[OF this] show False by simp
  qed
qed

lemma head_beta_reduce_result:
  "head_beta_reduce t = Some y \<Longrightarrow> y = Inr r \<Longrightarrow> \<not> is_head_beta r"
proof (induction arbitrary: r rule: head_beta_reduce_induct)
  case (step hbr t y)
  show ?case
  proof (cases "is_head_beta t")
    case False
    with step(2,3) show ?thesis by auto
  next
    case True
    obtain f args where fa: "get_app_rev_args t = (f, args)" by (cases "get_app_rev_args t")
    with True step(2) obtain t' where "hbr t' = Some y"
      by (auto split: if_splits sum.splits simp: step(3))
    from step(1)[OF this step(3)] show ?thesis .
  qed
qed

lemma get_app_rev_args_fst: "fst (get_app_rev_args t) = get_app_fn t"
  by (induction t) (auto split: prod.splits)


subsection \<open>The instantiation cache holds right entries only\<close>

lemma replace_fn1_id:
  assumes "\<And>e r. F e = Some r \<Longrightarrow> r = e"
  shows "replace_fn1 F e = e"
proof (induction e)
  case (App f a)
  then show ?case using assms[of "App f a"] by (cases "F (App f a)") simp_all
next
  case (Lambda b)
  then show ?case using assms[of "Lambda b"] by (cases "F (Lambda b)") simp_all
next
  case (BVar i)
  show ?case using assms[of "BVar i"] by (cases "F (BVar i)") simp_all
next
  case (Const c ls)
  show ?case using assms[of "Const c ls"] by (cases "F (Const c ls)") simp_all
next
  case (Sort l)
  show ?case using assms[of "Sort l"] by (cases "F (Sort l)") simp_all
qed

lemma instantiate_lparams_nil:
  assumes "\<And>l. lvl_inst l [] [] = l"
  shows "instantiate_lparams lvl_has_param lvl_inst e [] [] = e"
  unfolding instantiate_lparams_def
  by (simp add: assms, intro impI replace_fn1_id) (auto split: if_splits expr.splits simp: assms)

lemma new_cache_ok: "cache_ok mem lvl_has_param lvl_inst (new_cache capacity)"
  by (simp add: cache_ok_def new_cache_def)

lemma clear_ok: "cache_ok mem lvl_has_param lvl_inst c \<Longrightarrow> cache_ok mem lvl_has_param lvl_inst (clear c)"
  by (simp add: cache_ok_def clear_def)

lemma is_cached_ok:
  assumes ok: "cache_ok mem lvl_has_param lvl_inst c"
  shows "is_cached mem hash c d ls = Inr None
         \<or> is_cached mem hash c d ls
             = Inr (Some (instantiate_lparams lvl_has_param lvl_inst (get_type (mem d))
                            (get_lparams (mem d)) ls))"
proof (cases "m_cache c = []")
  case True
  then show ?thesis by (simp add: is_cached_def)
next
  case False
  let ?idx = "hash (get_name (mem d)) mod m_capacity c"
  from ok False have len: "length (m_cache c) = m_capacity c" and pos: "0 < m_capacity c"
    by (auto simp: cache_ok_def)
  then have idx: "?idx < length (m_cache c)" by simp
  then have mem: "m_cache c ! ?idx \<in> set (m_cache c)" by simp
  show ?thesis
  proof (cases "m_cache c ! ?idx")
    case None
    with False len idx show ?thesis by (simp add: is_cached_def)
  next
    case (Some entry)
    obtain info_c ls_c r_c where e: "entry = (info_c, ls_c, r_c)" by (cases entry)
    from ok mem Some e have
      "r_c = instantiate_lparams lvl_has_param lvl_inst (get_type (mem info_c))
               (get_lparams (mem info_c)) ls_c"
      unfolding cache_ok_def by force
    with False len idx Some e show ?thesis by (simp add: is_cached_def)
  qed
qed

lemma save_ok:
  assumes ok: "cache_ok mem lvl_has_param lvl_inst c"
    and r: "r = instantiate_lparams lvl_has_param lvl_inst (get_type (mem d)) (get_lparams (mem d)) ls"
  shows "\<exists>c'. save mem hash c d ls r = (c', Inr ()) \<and> cache_ok mem lvl_has_param lvl_inst c'"
proof -
  define c1 where "c1 = (if m_cache c = [] then c\<lparr>m_cache := replicate (m_capacity c) None\<rparr> else c)"
  from ok have pos: "0 < m_capacity c1" and len: "length (m_cache c1) = m_capacity c1"
    by (auto simp: cache_ok_def c1_def)
  have ent: "\<forall>entry \<in> set (m_cache c1).
            case entry of
              None \<Rightarrow> True
            | Some (d, ls, r) \<Rightarrow>
                r = instantiate_lparams lvl_has_param lvl_inst (get_type (mem d))
                      (get_lparams (mem d)) ls"
    using ok by (auto simp: cache_ok_def c1_def)
  let ?idx = "hash (get_name (mem d)) mod length (m_cache c1)"
  let ?c' = "c1\<lparr>m_cache := (m_cache c1)[?idx := Some (d, ls, r)]\<rparr>"
  have idx: "?idx < length (m_cache c1)" using pos len by simp
  have sv: "save mem hash c d ls r = (?c', Inr ())"
    using idx len unfolding save_def c1_def[symmetric] Let_def by simp
  have "set ((m_cache c1)[?idx := Some (d, ls, r)]) \<subseteq> insert (Some (d, ls, r)) (set (m_cache c1))"
    by (rule set_update_subset_insert)
  with ent r have "\<forall>entry \<in> set (m_cache ?c').
            case entry of
              None \<Rightarrow> True
            | Some (d, ls, r) \<Rightarrow>
                r = instantiate_lparams lvl_has_param lvl_inst (get_type (mem d))
                      (get_lparams (mem d)) ls"
    by auto
  with pos len have "cache_ok mem lvl_has_param lvl_inst ?c'" by (simp add: cache_ok_def)
  with sv show ?thesis by blast
qed

lemma instantiate_type_lparams_ok:
  assumes ok: "cache_ok mem lvl_has_param lvl_inst c"
    and call: "instantiate_type_lparams mem hash lvl_has_param lvl_inst d ls c = (c', res)"
  shows "cache_ok mem lvl_has_param lvl_inst c'"
    and "length (get_lparams (mem d)) = length ls \<Longrightarrow> (\<And>l. lvl_inst l [] [] = l) \<Longrightarrow>
         res = Inr (instantiate_lparams lvl_has_param lvl_inst (get_type (mem d))
                      (get_lparams (mem d)) ls)"
proof -
  let ?r = "instantiate_lparams lvl_has_param lvl_inst (get_type (mem d)) (get_lparams (mem d)) ls"
  from save_ok[OF ok refl, of hash d ls] obtain cs where
    sv: "save mem hash c d ls ?r = (cs, Inr ())" and oks: "cache_ok mem lvl_has_param lvl_inst cs"
    by blast
  consider (bad) "length (get_lparams (mem d)) \<noteq> length ls"
    | (early) "length (get_lparams (mem d)) = length ls"
        "ls = [] \<or> \<not> has_param_univ lvl_has_param (get_type (mem d))"
    | (hit) "length (get_lparams (mem d)) = length ls"
        "\<not> (ls = [] \<or> \<not> has_param_univ lvl_has_param (get_type (mem d)))"
        "is_cached mem hash c d ls = Inr (Some ?r)"
    | (miss) "length (get_lparams (mem d)) = length ls"
        "\<not> (ls = [] \<or> \<not> has_param_univ lvl_has_param (get_type (mem d)))"
        "is_cached mem hash c d ls = Inr None"
    using is_cached_ok[OF ok, of hash d ls] by blast
  then have "cache_ok mem lvl_has_param lvl_inst c'
     \<and> (length (get_lparams (mem d)) = length ls \<longrightarrow> (\<forall>l. lvl_inst l [] [] = l) \<longrightarrow> res = Inr ?r)"
  proof cases
    case bad
    with call ok show ?thesis by (simp add: instantiate_type_lparams_def)
  next
    case early
    from call early have c': "c' = c" and res: "res = Inr (get_type (mem d))"
      by (auto simp: instantiate_type_lparams_def)
    have "?r = get_type (mem d)" if "\<forall>l. lvl_inst l [] [] = l"
    proof (cases "ls = []")
      case True
      with early(1) have "get_lparams (mem d) = []" by simp
      with True that show ?thesis by (simp add: instantiate_lparams_nil)
    next
      case False
      with early(2) show ?thesis by (simp add: instantiate_lparams_def)
    qed
    with c' res ok show ?thesis by simp
  next
    case hit
    with call ok show ?thesis by (simp add: instantiate_type_lparams_def)
  next
    case miss
    with call sv oks show ?thesis by (simp add: instantiate_type_lparams_def Let_def)
  qed
  then show "cache_ok mem lvl_has_param lvl_inst c'"
    and "length (get_lparams (mem d)) = length ls \<Longrightarrow> (\<And>l. lvl_inst l [] [] = l) \<Longrightarrow> res = Inr ?r"
    by blast+
qed

lemma cache_reachable_ok:
  "cache_reachable mem hash lvl_has_param lvl_inst c \<Longrightarrow> cache_ok mem lvl_has_param lvl_inst c"
  by (induction rule: cache_reachable.induct)
    (auto intro: new_cache_ok clear_ok instantiate_type_lparams_ok(1))

subsection \<open>\<open>instantiate\<close> computes the substitution on unbounded indices\<close>

lemma lift_zero: "lift_loose_bvars_from e s 0 = e"
  by (induction e arbitrary: s) simp_all

lemma range_le_bound: "get_loose_bvar_range e \<le> bvar_bound e"
  by (induction e) auto

lemma range_subst_id: "get_loose_bvar_range e \<le> k \<Longrightarrow> subst_bvars e k subst = e"
  by (induction e arbitrary: k) auto

lemma subst_nil: "subst_bvars e k [] = e"
  by (induction e arbitrary: k) simp_all

lemma subst_funpow:
  "subst_bvars ((Lambda ^^ j) c) k subst = (Lambda ^^ j) (subst_bvars c (k + j) subst)"
  by (induction j arbitrary: k) simp_all

lemma subst_lift:
  "length ts = j \<Longrightarrow>
   subst_bvars (lift_loose_bvars_from x c (k + j)) (k + c) ts = lift_loose_bvars_from x c k"
proof (induction x arbitrary: c)
  case (Lambda b)
  from Lambda.IH[OF Lambda.prems, of "Suc c"] show ?case by simp
qed auto

lemma subst_comp:
  "length ts = j \<Longrightarrow>
   subst_bvars (subst_bvars e (k + j) [x]) k ts = subst_bvars e k (ts @ [x])"
proof (induction e arbitrary: k)
  case (BVar i)
  consider "i < k" | "k \<le> i" "i < k + j" | "i = k + j" | "k + j < i" by linarith
  then show ?case
  proof cases
    case 1
    then show ?thesis by simp
  next
    case 2
    then have "i - k < j" by arith
    with 2 BVar show ?thesis by (simp add: nth_append)
  next
    case 3
    with BVar subst_lift[of ts j x 0 k] show ?thesis by (simp add: nth_append)
  next
    case 4
    then have "\<not> i - Suc 0 < k + j" "\<not> i - Suc 0 < k" "i - Suc 0 - j = i - Suc j" by arith+
    with 4 BVar show ?thesis by simp
  qed
next
  case (Lambda b)
  from Lambda.IH[OF Lambda.prems, of "Suc k"] show ?case by simp
qed simp_all

lemma bvar_bound_lift: "bvar_bound (lift_loose_bvars_from x c d) \<le> bvar_bound x + d"
proof (induction x arbitrary: c)
  case (App f a)
  from App.IH(1)[of c] App.IH(2)[of c] show ?case by (auto simp: max_def)
next
  case (Lambda b)
  from Lambda.IH[of "Suc c"] show ?case by simp
qed simp_all

lemma binder_depth_lift: "binder_depth (lift_loose_bvars_from x c d) = binder_depth x"
  by (induction x arbitrary: c) auto

lemma bvar_bound_subst:
  assumes "\<And>x. x \<in> set subst \<Longrightarrow> bvar_bound x \<le> bm"
  shows "bvar_bound (subst_bvars e k subst) \<le> max (bvar_bound e) (bm + k + binder_depth e)"
proof (induction e arbitrary: k)
  case (BVar i)
  show ?case
  proof (cases "k \<le> i \<and> i < k + length subst")
    case True
    then have "i - k < length subst" by arith
    then have "subst ! (i - k) \<in> set subst" by (rule nth_mem)
    from assms[OF this] bvar_bound_lift[of "subst ! (i - k)" 0 k] True show ?thesis by simp
  next
    case False
    then show ?thesis by auto
  qed
next
  case (App f a)
  from App.IH(1)[of k] App.IH(2)[of k] show ?case by auto
next
  case (Lambda b)
  from Lambda.IH[of "Suc k"] show ?case by simp
qed simp_all

lemma binder_depth_subst:
  assumes "\<And>x. x \<in> set subst \<Longrightarrow> binder_depth x \<le> dm"
  shows "binder_depth (subst_bvars e k subst) \<le> binder_depth e + dm"
proof (induction e arbitrary: k)
  case (BVar i)
  show ?case
  proof (cases "k \<le> i \<and> i < k + length subst")
    case True
    then have "i - k < length subst" by arith
    then have "subst ! (i - k) \<in> set subst" by (rule nth_mem)
    from assms[OF this] True show ?thesis by (simp add: binder_depth_lift)
  next
    case False
    then show ?thesis by auto
  qed
next
  case (App f a)
  from App.IH(1)[of k] App.IH(2)[of k] show ?case by auto
next
  case (Lambda b)
  from Lambda.IH[of "Suc k"] show ?case by simp
qed simp_all

lemma bvar_bound_funpow: "bvar_bound ((Lambda ^^ j) c) = bvar_bound c"
  by (induction j) simp_all

lemma binder_depth_funpow: "binder_depth ((Lambda ^^ j) c) = j + binder_depth c"
  by (induction j) simp_all

text \<open>The fast path and the generic path compute the substitution.\<close>

lemma easy_refine:
  "length subst = n \<Longrightarrow>
   instantiate_easy_fn False n subst e app = Inr None
   \<or> instantiate_easy_fn False n subst e app = Inr (Some (subst_bvars e 0 subst))"
proof (induction e arbitrary: app)
  case (BVar i)
  then show ?case by (simp add: array_read_def lift_zero has_loose_bvars_def)
next
  case (App f a)
  have closed: "subst_bvars (App f a) 0 subst = App f a" if "\<not> has_loose_bvars (App f a)"
    using that by (intro range_subst_id) (simp add: has_loose_bvars_def)
  from App.IH(1)[OF App.prems, of True] App.IH(2)[OF App.prems, of False] closed
  show ?case by (auto simp del: subst_bvars.simps(2)) (auto)
next
  case (Lambda b)
  have "subst_bvars (Lambda b) 0 subst = Lambda b" if "\<not> has_loose_bvars (Lambda b)"
    using that by (intro range_subst_id) (simp add: has_loose_bvars_def)
  then show ?case by auto
qed simp_all

lemma replace_refine:
  assumes len: "length subst = n"
  shows "bvar_bound e + n < 4294967296 \<Longrightarrow> k < 4294967296 \<Longrightarrow>
         replace_fn (instantiate_fn 0 n subst) e k = Inr (subst_bvars e k subst)"
proof (induction e arbitrary: k)
  case (BVar i)
  have s1: "unsigned_add 0 k = k" using BVar.prems by (simp add: unsigned_add_def)
  show ?case
  proof (cases "i < k")
    case True
    then show ?thesis by (simp add: instantiate_fn_def s1)
  next
    case False
    then have ki: "k \<le> i" by simp
    with BVar.prems have h: "unsigned_add k n = k + n" by (simp add: unsigned_add_def)
    have sm: "get_small_value i = Inr i" using BVar.prems by (simp add: get_small_value_def)
    have us: "unsigned_sub i k = i - k" using ki BVar.prems by (intro unsigned_sub_le) simp_all
    show ?thesis
    proof (cases "i < k + n")
      case True
      with ki len have "array_read subst (i - k) = Inr (subst ! (i - k))"
        by (simp add: array_read_def)
      with True ki len show ?thesis
        by (simp add: instantiate_fn_def s1 h sm us lift_loose_bvars_def)
    next
      case False
      with ki len show ?thesis by (simp add: instantiate_fn_def s1 h)
    qed
  qed
next
  case (App f a)
  have s1: "unsigned_add 0 k = k" using App.prems by (simp add: unsigned_add_def)
  show ?case
  proof (cases "get_loose_bvar_range (App f a) \<le> k")
    case True
    then have "instantiate_fn 0 n subst (App f a) k = Inr (Some (App f a))"
      by (simp add: instantiate_fn_def s1)
    with range_subst_id[OF True, of subst] show ?thesis by simp
  next
    case False
    then have F: "instantiate_fn 0 n subst (App f a) k = Inr None"
      by (simp add: instantiate_fn_def s1)
    from App.prems have "bvar_bound f + n < 4294967296" "bvar_bound a + n < 4294967296" by simp_all
    from App.IH(1)[OF this(1) App.prems(2)] App.IH(2)[OF this(2) App.prems(2)] F
    show ?thesis by simp
  qed
next
  case (Lambda b)
  have s1: "unsigned_add 0 k = k" using Lambda.prems by (simp add: unsigned_add_def)
  show ?case
  proof (cases "get_loose_bvar_range (Lambda b) \<le> k")
    case True
    then have "instantiate_fn 0 n subst (Lambda b) k = Inr (Some (Lambda b))"
      by (simp add: instantiate_fn_def s1)
    with range_subst_id[OF True, of subst] show ?thesis by simp
  next
    case False
    then have F: "instantiate_fn 0 n subst (Lambda b) k = Inr None"
      by (simp add: instantiate_fn_def s1)
    from False range_le_bound[of "Lambda b"] Lambda.prems have k1: "Suc k < 4294967296" by simp
    then have u: "unsigned_add k 1 = Suc k" by (simp add: unsigned_add_def)
    from Lambda.prems have "bvar_bound b + n < 4294967296" by simp
    from Lambda.IH[OF this k1] F u show ?thesis by simp
  qed
next
  case (Const c ls)
  then show ?case by (simp add: instantiate_fn_def unsigned_add_def)
next
  case (Sort l)
  then show ?case by (simp add: instantiate_fn_def unsigned_add_def)
qed

lemma instantiate_refine:
  assumes len: "length subst = n" and b: "bvar_bound e + n < 4294967296"
  shows "instantiate e 0 n subst = Inr (subst_bvars e 0 subst)"
proof (cases "get_loose_bvar_range e = 0 \<or> n = 0")
  case True
  then have "subst_bvars e 0 subst = e"
    using len range_subst_id[of e 0 subst] subst_nil[of e 0] by auto
  with True show ?thesis by (auto simp: instantiate_def)
next
  case False
  from replace_refine[OF len b, of 0]
  have g: "replace_fn (instantiate_fn 0 n subst) e 0 = Inr (subst_bvars e 0 subst)" by simp
  from easy_refine[OF len, of e True] g False show ?thesis
    by (auto simp: instantiate_def)
qed

subsection \<open>Peeling lambdas\<close>

lemma mk_rev_app_append:
  "i \<le> length xs \<Longrightarrow> mk_rev_app f i (xs @ ys) = mk_rev_app f i xs"
proof (induction i arbitrary: f)
  case (Suc i)
  then have "array_read (xs @ ys) i = array_read xs i"
    by (simp add: array_read_def nth_append)
  with Suc show ?case by (simp split: sum.splits)
qed simp

lemma lambda_decomp: "\<exists>c. f = (Lambda ^^ num_lambdas f) c \<and> \<not> is_lambda c"
proof (induction f)
  case (Lambda b)
  then obtain c where "b = (Lambda ^^ num_lambdas b) c" "\<not> is_lambda c" by blast
  then have "Lambda b = (Lambda ^^ num_lambdas (Lambda b)) c \<and> \<not> is_lambda c" by simp
  then show ?case ..
next
  case (BVar i)
  have "BVar i = (Lambda ^^ num_lambdas (BVar i)) (BVar i) \<and> \<not> is_lambda (BVar i)" by simp
  then show ?case ..
next
  case (App f a)
  have "App f a = (Lambda ^^ num_lambdas (App f a)) (App f a) \<and> \<not> is_lambda (App f a)" by simp
  then show ?case ..
next
  case (Const c ls)
  have "Const c ls = (Lambda ^^ num_lambdas (Const c ls)) (Const c ls) \<and> \<not> is_lambda (Const c ls)"
    by simp
  then show ?case ..
next
  case (Sort l)
  have "Sort l = (Lambda ^^ num_lambdas (Sort l)) (Sort l) \<and> \<not> is_lambda (Sort l)" by simp
  then show ?case ..
qed

lemma apply_beta_loop_peels:
  "\<not> is_lambda c \<Longrightarrow> m + j \<le> num_args \<Longrightarrow>
   apply_beta_loop ((Lambda ^^ Suc j) c) m num_args = (Lambda c, m + j)"
proof (induction j arbitrary: m)
  case 0
  then show ?case by simp
next
  case (Suc j)
  from Suc.prems have "m < num_args" by simp
  moreover have "is_lambda ((Lambda ^^ Suc j) c)" by simp
  moreover from Suc.IH[OF Suc.prems(1), of "Suc m"] Suc.prems(2)
  have "apply_beta_loop ((Lambda ^^ Suc j) c) (Suc m) num_args = (Lambda c, Suc m + j)" by simp
  ultimately show ?case by simp
qed

text \<open>Peeling the lambdas one at a time computes the bulk substitution.\<close>

lemma beta_steps:
  assumes "j \<le> length R"
    and "\<And>x. x \<in> set R \<Longrightarrow> bvar_bound x \<le> bm"
    and "j + binder_depth c \<le> D"
    and "bvar_bound c \<le> bm + D"
    and "bm + D + sum_list (map binder_depth R) + length R < 4294967296"
  shows "beta_one_at_a_time j ((Lambda ^^ j) c) R
           = mk_rev_app (subst_bvars c 0 (drop (length R - j) R)) (length R - j) R"
  using assms
proof (induction j arbitrary: c R D)
  case 0
  then show ?case by (simp add: subst_nil)
next
  case (Suc j)
  let ?Eb = "(Lambda ^^ j) c"
  let ?x = "last R"
  let ?R' = "butlast R"
  let ?c' = "subst_bvars c j [?x]"
  let ?q = "length R - Suc j"
  from Suc.prems(1) have ne: "R \<noteq> []" by auto
  then have R: "R = ?R' @ [?x]" by simp
  have lenR': "length ?R' = length R - 1" by simp
  have xin: "?x \<in> set R" using ne by simp
  have sumR: "sum_list (map binder_depth R) = sum_list (map binder_depth ?R') + binder_depth ?x"
    by (subst R) simp
  have bEb: "bvar_bound ?Eb = bvar_bound c" by (rule bvar_bound_funpow)
  have dEb: "binder_depth ?Eb = j + binder_depth c" by (rule binder_depth_funpow)
  have "bvar_bound ?Eb + 1 < 4294967296"
    using Suc.prems(4,5) ne bEb by (cases R) simp_all
  then have inst: "instantiate ?Eb 0 1 [?x] = Inr (subst_bvars ?Eb 0 [?x])"
    by (intro instantiate_refine) simp_all
  have sub: "subst_bvars ?Eb 0 [?x] = (Lambda ^^ j) ?c'"
    by (simp add: subst_funpow)
  have step: "beta_one_at_a_time (Suc j) ((Lambda ^^ Suc j) c) R
                = beta_one_at_a_time j ((Lambda ^^ j) ?c') ?R'"
    using ne inst sub by simp
  have p1: "j \<le> length ?R'" using Suc.prems(1) by simp
  have p2: "bvar_bound y \<le> bm" if "y \<in> set ?R'" for y
    using that Suc.prems(2) by (auto dest: in_set_butlastD)
  have "binder_depth (subst_bvars ?Eb 0 [?x]) \<le> binder_depth ?Eb + binder_depth ?x"
    by (rule binder_depth_subst) simp
  then have p3: "j + binder_depth ?c' \<le> D + binder_depth ?x"
    using Suc.prems(3) dEb by (simp add: sub binder_depth_funpow)
  have "bvar_bound (subst_bvars ?Eb 0 [?x]) \<le> max (bvar_bound ?Eb) (bm + 0 + binder_depth ?Eb)"
    by (rule bvar_bound_subst) (use Suc.prems(2) xin in simp)
  then have p4: "bvar_bound ?c' \<le> bm + (D + binder_depth ?x)"
    using Suc.prems(3,4) bEb dEb by (simp add: sub bvar_bound_funpow)
  have p5: "bm + (D + binder_depth ?x) + sum_list (map binder_depth ?R') + length ?R' < 4294967296"
    using Suc.prems(5) sumR lenR' by simp
  note IH = Suc.IH[OF p1 p2 p3 p4 p5]
  have q: "length ?R' - j = ?q" by simp
  have qle: "?q \<le> length ?R'" by simp
  have tl: "length (drop ?q ?R') = j" using Suc.prems(1) by simp
  have "drop ?q R = drop ?q ?R' @ [?x]"
    by (subst R) (simp add: qle)
  then have comp: "subst_bvars ?c' 0 (drop ?q ?R') = subst_bvars c 0 (drop ?q R)"
    using subst_comp[OF tl, of c 0 ?x] by simp
  have "mk_rev_app t ?q R = mk_rev_app t ?q ?R'" for t
    by (subst R) (rule mk_rev_app_append[OF qle])
  with step IH comp show ?case by (simp add: q)
qed

lemma sum_list_bound: "x \<in> set xs \<Longrightarrow> f x \<le> sum_list (map f xs)" for f :: "'a \<Rightarrow> nat"
  by (induction xs) auto

section \<open>The claims about the substitution engine\<close>

subsection \<open>The no-op property (claim C5)\<close>

text \<open>
  Claim C5: \<open>instantiate(t, s, n, subst)\<close> returns \<open>t\<close> itself whenever the loose-bvar range of
  \<open>t\<close> is at most \<open>s\<close>, and whenever \<open>n = 0\<close>, for every \<open>t\<close>, \<open>s\<close>, \<open>n\<close> and \<open>subst\<close>.
\<close>

theorem instantiate_noop:
  "get_loose_bvar_range t \<le> s \<or> n = 0 \<Longrightarrow> instantiate t s n subst = Inr t"
  by (auto simp: instantiate_def)

theorem instantiate_noop_witness:
  "instantiate (App (Lambda (BVar 0)) (BVar 1)) 2 3 [Sort (UVar ''u'' 0)]
     = Inr (App (Lambda (BVar 0)) (BVar 1))
   \<and> instantiate (BVar 7) 0 0 [] = Inr (BVar 7)"
  using instantiate_noop[of "App (Lambda (BVar 0)) (BVar 1)" 2 3 "[Sort (UVar ''u'' 0)]"]
    instantiate_noop[of "BVar 7" 0 0 "[]"]
  by simp

subsection \<open>The reversal law (claim C6)\<close>

text \<open>
  Claim C6: for every term \<open>t\<close> with loose-bvar range at most \<open>n\<close> and every substitution array
  \<open>subst\<close> of length \<open>n\<close> (an \<open>unsigned\<close>, so below \<open>2^32\<close>), \<open>instantiate_rev(t, n, subst)\<close> returns
  what \<open>instantiate(t, 0, n, reverse(subst))\<close> returns; in particular
  \<open>instantiate(bvar(0), 0, [a, b])\<close> yields \<open>a\<close> and \<open>instantiate_rev(bvar(0), 2, [a, b])\<close> yields
  \<open>b\<close>.
\<close>

theorem instantiate_rev_reversal:
  "(get_loose_bvar_range t \<le> n \<and> length subst = n \<and> n < 4294967296
      \<longrightarrow> instantiate_rev t n subst = instantiate t 0 n (rev subst))
   \<and> instantiate (BVar 0) 0 2 [a, b] = Inr a
   \<and> instantiate_rev (BVar 0) 2 [a, b] = Inr b"
proof (intro conjI impI)
  assume h: "get_loose_bvar_range t \<le> n \<and> length subst = n \<and> n < 4294967296"
  then have len: "length subst = n" and n: "n < 4294967296" by simp_all
  have gen: "replace_fn (instantiate_rev_fn n subst) t 0 = replace_fn (instantiate_fn 0 n (rev subst)) t 0"
    by (rule replace_fn_cong) (simp_all add: fn_rev[OF len n])
  show "instantiate_rev t n subst = instantiate t 0 n (rev subst)"
  proof (cases "get_loose_bvar_range t = 0")
    case True
    then show ?thesis by (simp add: instantiate_rev_def instantiate_def has_loose_bvars_def)
  next
    case False
    with h have "n \<noteq> 0" by auto
    with False show ?thesis
      unfolding instantiate_rev_def instantiate_def has_loose_bvars_def easy_fn_rev[OF len n] gen
      by simp
  qed
next
  show "instantiate (BVar 0) 0 2 [a, b] = Inr a" by (simp add: expr_eval)
  show "instantiate_rev (BVar 0) 2 [a, b] = Inr b" by (simp add: expr_eval)
qed

theorem instantiate_rev_reversal_witness:
  "instantiate_rev (App (BVar 0) (Lambda (BVar 2))) 2 [Const ''a'' [], Const ''b'' []]
     = instantiate (App (BVar 0) (Lambda (BVar 2))) 0 2 [Const ''b'' [], Const ''a'' []]
   \<and> instantiate_rev (App (BVar 0) (Lambda (BVar 2))) 2 [Const ''a'' [], Const ''b'' []]
     = Inr (App (Const ''b'' []) (Lambda (Const ''a'' [])))
   \<and> instantiate (BVar 0) 0 2 [Const ''a'' [], Const ''b'' []] = Inr (Const ''a'' [])
   \<and> instantiate_rev (BVar 0) 2 [Const ''a'' [], Const ''b'' []] = Inr (Const ''b'' [])"
proof -
  have "instantiate_rev (App (BVar 0) (Lambda (BVar 2))) 2 [Const ''a'' [], Const ''b'' []]
     = Inr (App (Const ''b'' []) (Lambda (Const ''a'' [])))"
    by (simp add: expr_eval)
  with instantiate_rev_reversal[of "App (BVar 0) (Lambda (BVar 2))" 2
      "[Const ''a'' [], Const ''b'' []]" "Const ''a'' []" "Const ''b'' []"]
  show ?thesis by simp
qed

subsection \<open>Termination of \<open>head_beta_reduce\<close> (claim C9)\<close>

text \<open>
  Claim C9, as stated, fails: on \<open>(\<lambda>x. x x) (\<lambda>x. x x)\<close> every round of \<open>apply_beta\<close> gives the
  same term back, and \<open>head_beta_reduce\<close> never returns.
\<close>

theorem head_beta_reduce_omega_counterexample:
  "head_beta_reduce (App (Lambda (App (BVar 0) (BVar 0))) (Lambda (App (BVar 0) (BVar 0)))) = None"
proof (cases "head_beta_reduce omega")
  case None
  then show ?thesis by (simp add: omega_def)
next
  case (Some y)
  from omega_never_returns[OF this] show ?thesis by simp
qed

text \<open>
  Claim C9 (amended): \<open>head_beta_reduce\<close> returns a term that is not a head-beta redex
  unchanged; on a head-beta redex it is \<open>head_beta_reduce\<close> of the result of \<open>apply_beta\<close> on
  the head of the application spine and all its arguments; whenever it returns a term, that
  term is not a head-beta redex; and applied to \<open>((\<lambda>x. x) a)\<close> with \<open>a\<close> not a head-beta redex
  it returns \<open>a\<close>. (It does not return on every term.)
\<close>

theorem head_beta_reduce_partial:
  "(\<not> is_head_beta t \<longrightarrow> head_beta_reduce t = Some (Inr t))
   \<and> (is_head_beta t \<longrightarrow>
        head_beta_reduce t =
          (case apply_beta (get_app_fn t) (length (snd (get_app_rev_args t)))
                  (snd (get_app_rev_args t)) of
             Inl err \<Rightarrow> Some (Inl err)
           | Inr t' \<Rightarrow> head_beta_reduce t'))
   \<and> (head_beta_reduce t = Some (Inr r) \<longrightarrow> \<not> is_head_beta r)
   \<and> (\<not> is_head_beta a \<longrightarrow> head_beta_reduce (App (Lambda (BVar 0)) a) = Some (Inr a))"
proof (intro conjI impI)
  assume "\<not> is_head_beta t"
  then show "head_beta_reduce t = Some (Inr t)" by (simp add: head_beta_reduce.simps)
next
  assume hb: "is_head_beta t"
  obtain f args where fa: "get_app_rev_args t = (f, args)" by (cases "get_app_rev_args t")
  with get_app_rev_args_fst[of t] have f: "f = get_app_fn t" by simp
  with hb have "is_lambda f" by (simp add: is_head_beta_def)
  with hb fa f show "head_beta_reduce t =
          (case apply_beta (get_app_fn t) (length (snd (get_app_rev_args t)))
                  (snd (get_app_rev_args t)) of
             Inl err \<Rightarrow> Some (Inl err)
           | Inr t' \<Rightarrow> head_beta_reduce t')"
    by (subst head_beta_reduce.simps) simp
next
  assume "head_beta_reduce t = Some (Inr r)"
  then show "\<not> is_head_beta r" by (rule head_beta_reduce_result) simp
next
  assume a: "\<not> is_head_beta a"
  have "apply_beta (Lambda (BVar 0)) (Suc 0) [a] = Inr a" by (simp add: expr_eval)
  then have "head_beta_reduce (App (Lambda (BVar 0)) a) = head_beta_reduce a"
    by (subst head_beta_reduce.simps) (simp add: is_head_beta_def)
  with a show "head_beta_reduce (App (Lambda (BVar 0)) a) = Some (Inr a)"
    by (simp add: head_beta_reduce.simps)
qed

theorem head_beta_reduce_partial_witness:
  "head_beta_reduce (Const ''a'' []) = Some (Inr (Const ''a'' []))
   \<and> \<not> is_head_beta (Const ''a'' [])
   \<and> is_head_beta (App (Lambda (BVar 0)) (Const ''a'' []))
   \<and> apply_beta (Lambda (BVar 0)) 1 [Const ''a'' []] = Inr (Const ''a'' [])
   \<and> head_beta_reduce (App (Lambda (BVar 0)) (Const ''a'' [])) = Some (Inr (Const ''a'' []))"
proof -
  have nb: "\<not> is_head_beta (Const ''a'' [])" by (simp add: is_head_beta_def)
  have hb: "is_head_beta (App (Lambda (BVar 0)) (Const ''a'' []))" by (simp add: is_head_beta_def)
  have ab: "apply_beta (Lambda (BVar 0)) 1 [Const ''a'' []] = Inr (Const ''a'' [])"
    by (simp add: expr_eval)
  from head_beta_reduce_partial[where t = "Const ''a'' []" and r = "Const ''a'' []"
      and a = "Const ''a'' []"] nb
  have base: "head_beta_reduce (Const ''a'' []) = Some (Inr (Const ''a'' []))" by blast
  from head_beta_reduce_partial[where t = "App (Lambda (BVar 0)) (Const ''a'' [])"
      and r = "Const ''a'' []" and a = "Const ''a'' []"] hb
  have "head_beta_reduce (App (Lambda (BVar 0)) (Const ''a'' [])) =
          (case apply_beta (get_app_fn (App (Lambda (BVar 0)) (Const ''a'' [])))
                  (length (snd (get_app_rev_args (App (Lambda (BVar 0)) (Const ''a'' [])))))
                  (snd (get_app_rev_args (App (Lambda (BVar 0)) (Const ''a'' [])))) of
             Inl err \<Rightarrow> Some (Inl err)
           | Inr t' \<Rightarrow> head_beta_reduce t')"
    by blast
  with ab base have "head_beta_reduce (App (Lambda (BVar 0)) (Const ''a'' [])) = Some (Inr (Const ''a'' []))"
    by simp
  with nb hb ab base show ?thesis by simp
qed


subsection \<open>Cache transparency (claim C8)\<close>

text \<open>
  Claim C8: whatever calls filled the type cache before, \<open>instantiate_type_lparams(d, ls)\<close>
  returns what \<open>instantiate_lparams(d.type, d.params, ls)\<close> returns, for every declaration
  object \<open>d\<close> and level list \<open>ls\<close> of the length of \<open>d\<close>'s parameter list (the assertion of the
  function); an entry written for another declaration object in the same bucket, with an
  equal name or not, is a miss. Substituting no parameter is taken to leave a level as it
  is, which the early return for an empty \<open>ls\<close> relies on.
\<close>

theorem cache_transparency:
  assumes "cache_reachable mem hash lvl_has_param lvl_inst c"
    and "length (get_lparams (mem d)) = length ls"
    and "\<forall>l. lvl_inst l [] [] = l"
  shows "snd (instantiate_type_lparams mem hash lvl_has_param lvl_inst d ls c)
           = Inr (instantiate_lparams lvl_has_param lvl_inst (get_type (mem d))
                    (get_lparams (mem d)) ls)"
proof -
  obtain c' res where call: "instantiate_type_lparams mem hash lvl_has_param lvl_inst d ls c = (c', res)"
    by (cases "instantiate_type_lparams mem hash lvl_has_param lvl_inst d ls c")
  from instantiate_type_lparams_ok(2)[OF cache_reachable_ok[OF assms(1)] call assms(2)] assms(3)
  have "res = Inr (instantiate_lparams lvl_has_param lvl_inst (get_type (mem d)) (get_lparams (mem d)) ls)"
    by blast
  with call show ?thesis by simp
qed

theorem cache_transparency_witness:
  "(let c1 = fst (instantiate_type_lparams two_decls (\<lambda>n. 7) (\<lambda>l. True) first_level 0
                    [UVar ''v'' 2] (new_cache 1))
    in m_cache c1 = [Some (0, [UVar ''v'' 2], Sort (UVar ''v'' 2))]
       \<and> snd (instantiate_type_lparams two_decls (\<lambda>n. 7) (\<lambda>l. True) first_level 1 [UVar ''v'' 2] c1)
           = Inr (Const ''c'' [UVar ''v'' 2])
       \<and> snd (instantiate_type_lparams two_decls (\<lambda>n. 7) (\<lambda>l. True) first_level 0 [UVar ''v'' 2] c1)
           = Inr (Sort (UVar ''v'' 2)))"
proof -
  define c1 where "c1 = fst (instantiate_type_lparams two_decls (\<lambda>n. 7) (\<lambda>l. True) first_level 0
                    [UVar ''v'' 2] (new_cache 1))"
  have v1: "c1 = \<lparr>m_capacity = 1, m_cache = [Some (0, [UVar ''v'' 2], Sort (UVar ''v'' 2))]\<rparr>"
    by (simp add: c1_def instantiate_type_lparams_def two_decls_def new_cache_def is_cached_def
        save_def instantiate_lparams_def first_level_def Let_def)
  have "instantiate_type_lparams two_decls (\<lambda>n. 7) (\<lambda>l. True) first_level 0 [UVar ''v'' 2] (new_cache 1)
          = (c1, snd (instantiate_type_lparams two_decls (\<lambda>n. 7) (\<lambda>l. True) first_level 0
                    [UVar ''v'' 2] (new_cache 1)))"
    by (simp add: c1_def)
  from cache_reachable.called[OF cache_reachable.created this]
  have r: "cache_reachable two_decls (\<lambda>n. 7) (\<lambda>l. True) first_level c1" .
  have l: "\<forall>l. first_level l [] [] = l" by (simp add: first_level_def)
  have i1: "instantiate_lparams (\<lambda>l. True) first_level (get_type (two_decls 1))
              (get_lparams (two_decls 1)) [UVar ''v'' 2] = Const ''c'' [UVar ''v'' 2]"
    and i0: "instantiate_lparams (\<lambda>l. True) first_level (get_type (two_decls 0))
              (get_lparams (two_decls 0)) [UVar ''v'' 2] = Sort (UVar ''v'' 2)"
    by (simp_all add: instantiate_lparams_def two_decls_def first_level_def)
  have "snd (instantiate_type_lparams two_decls (\<lambda>n. 7) (\<lambda>l. True) first_level 1 [UVar ''v'' 2] c1)
           = Inr (Const ''c'' [UVar ''v'' 2])"
    using cache_transparency[OF r _ l, of 1 "[UVar ''v'' 2]"] i1 by (simp add: two_decls_def)
  moreover have "snd (instantiate_type_lparams two_decls (\<lambda>n. 7) (\<lambda>l. True) first_level 0 [UVar ''v'' 2] c1)
           = Inr (Sort (UVar ''v'' 2))"
    using cache_transparency[OF r _ l, of 0 "[UVar ''v'' 2]"] i0 by (simp add: two_decls_def)
  ultimately show ?thesis unfolding Let_def c1_def[symmetric] using v1 by simp
qed

subsection \<open>Beta bulk-equivalence (claim C7)\<close>

text \<open>
  Claim C7: for every function term \<open>f\<close> and argument stack \<open>args\<close> such that \<open>f\<close> has at most
  \<open>|args|\<close> leading nested lambdas, \<open>apply_beta(f, |args|, args)\<close> returns what beta reduction
  one argument at a time returns: peel one lambda, instantiate its body with one argument,
  repeat for the leading lambdas of \<open>f\<close>, and reapply the arguments that were not consumed.
  The terms are taken to fit the \<open>unsigned\<close> index arithmetic of \<open>instantiate\<close>: the indices
  and binder depths of \<open>f\<close> and of the arguments, added up with the number of arguments, stay
  below \<open>2^32\<close>.
\<close>

theorem apply_beta_bulk:
  assumes "num_lambdas f \<le> length args"
    and "sum_list (map expr_weight (f # args)) + length args < 4294967296"
  shows "apply_beta f (length args) args = beta_one_at_a_time (num_lambdas f) f args"
proof -
  let ?L = "num_lambdas f" and ?N = "length args"
  from lambda_decomp[of f] obtain c where f: "f = (Lambda ^^ ?L) c" and c: "\<not> is_lambda c" by blast
  define bm where "bm = sum_list (map bvar_bound (f # args))"
  define D where "D = binder_depth f"
  have "sum_list (map expr_weight xs)
          = sum_list (map bvar_bound xs) + sum_list (map binder_depth xs)" for xs
    by (induction xs) (simp_all add: expr_weight_def)
  then have w: "sum_list (map expr_weight (f # args)) = bm + D + sum_list (map binder_depth args)"
    by (simp add: bm_def D_def expr_weight_def)
  have b1: "bvar_bound x \<le> bm" if "x \<in> set args" for x
    using sum_list_bound[OF that, of bvar_bound] by (simp add: bm_def)
  have bf: "bvar_bound f \<le> bm" by (simp add: bm_def)
  have b2: "?L + binder_depth c \<le> D"
    using binder_depth_funpow[of ?L c] f by (simp add: D_def)
  have bc: "bvar_bound c = bvar_bound f" using bvar_bound_funpow[of ?L c] f by simp
  have b3: "bvar_bound c \<le> bm + D" using bf bc by simp
  have b4: "bm + D + sum_list (map binder_depth args) + ?N < 4294967296"
    using assms(2) w by simp
  have naive: "beta_one_at_a_time ?L f args
                 = mk_rev_app (subst_bvars c 0 (drop (?N - ?L) args)) (?N - ?L) args"
    using beta_steps[OF assms(1) b1 b2 b3 b4] f by simp
  show ?thesis
  proof (cases "?L")
    case 0
    with f have fc: "f = c" by simp
    with 0 naive c show ?thesis by (simp add: apply_beta_def subst_nil)
  next
    case (Suc j)
    with assms(1) have N: "?N \<noteq> 0" by auto
    from Suc f have fl: "f = (Lambda ^^ Suc j) c" by simp
    then have isl: "is_lambda f" by simp
    have loop: "apply_beta_loop f 1 ?N = (Lambda c, ?L)"
      using apply_beta_loop_peels[OF c, of 1 j ?N] assms(1) Suc fl by simp
    have "bvar_bound c + ?L < 4294967296" using b3 b4 assms(1) by simp
    moreover have "length (drop (?N - ?L) args) = ?L" using assms(1) by simp
    ultimately have "instantiate c 0 ?L (drop (?N - ?L) args)
                       = Inr (subst_bvars c 0 (drop (?N - ?L) args))"
      by (intro instantiate_refine)
    with N isl loop naive show ?thesis by (simp add: apply_beta_def)
  qed
qed

theorem apply_beta_bulk_witness:
  "apply_beta (Lambda (Lambda (App (BVar 0) (BVar 1)))) 3
       [Const ''c'' [], Const ''b'' [], Const ''a'' []]
     = beta_one_at_a_time 2 (Lambda (Lambda (App (BVar 0) (BVar 1))))
         [Const ''c'' [], Const ''b'' [], Const ''a'' []]
   \<and> apply_beta (Lambda (Lambda (App (BVar 0) (BVar 1)))) 3
       [Const ''c'' [], Const ''b'' [], Const ''a'' []]
     = Inr (App (App (Const ''b'' []) (Const ''a'' [])) (Const ''c'' []))"
proof -
  have "apply_beta (Lambda (Lambda (App (BVar 0) (BVar 1)))) 3
       [Const ''c'' [], Const ''b'' [], Const ''a'' []]
     = Inr (App (App (Const ''b'' []) (Const ''a'' [])) (Const ''c'' []))"
    by (simp add: expr_eval numeral_3_eq_3)
  with apply_beta_bulk[of "Lambda (Lambda (App (BVar 0) (BVar 1)))"
      "[Const ''c'' [], Const ''b'' [], Const ''a'' []]"]
  show ?thesis by (simp add: expr_weight_def numeral_2_eq_2 expr_eval)
qed

end
